theory Spec2Isabelle
  imports Main "HOL-Library.Word" "HOL-Library.Sublist"
begin

section \<open>Ingestion of apk package metadata (ext/repo\_apk.c)\<close>

text \<open>
  A C string is represented by the list of its characters before the terminating NUL;
  \<open>strlen\<close> is \<open>length\<close>, \<open>*p\<close> being NUL is \<open>p = []\<close>, and \<open>p + n\<close> is \<open>drop n p\<close>.
\<close>

type_synonym byte = "8 word"

subsection \<open>Checksum-string decoder: \<open>apk_add_hdrid\<close>\<close>

datatype chksumtype = REPOKEY_TYPE_MD5 | REPOKEY_TYPE_SHA1 | REPOKEY_TYPE_SHA256

text \<open>
  Modelled from the spec: \<open>repodata_set_bin_checksum\<close> is declared in repodata.h and its
  body is not part of the source. It stores the algorithm tag and the fixed-length digest
  read from the buffer it is given: 16 bytes for MD5, 20 for SHA-1, 32 for SHA-256.
\<close>

fun solv_chksum_len :: "chksumtype \<Rightarrow> nat" where
  "solv_chksum_len REPOKEY_TYPE_MD5 = 16"
| "solv_chksum_len REPOKEY_TYPE_SHA1 = 20"
| "solv_chksum_len REPOKEY_TYPE_SHA256 = 32"

text \<open>
  \<open>idstr[i]\<close>. Index \<open>strlen idstr\<close> holds the terminator. The source also reads
  \<open>idstr[1]\<close> of an empty token, one place behind the terminator; whatever is stored there,
  the test it is part of also requires the length 46 and fails.
\<close>

definition cchar :: "string \<Rightarrow> nat \<Rightarrow> char" where
  "cchar s i = (if i < length s then s ! i else CHR 0x00)"

text \<open>
  The chain of alphabet tests of the decoding loop, on the character at index \<open>i\<close> of the
  body: \<open>None\<close> is the \<open>return\<close> of the last branch.
\<close>

definition hdrid_digit :: "nat \<Rightarrow> nat \<Rightarrow> char \<Rightarrow> nat option" where
  "hdrid_digit xpos i c =
     (let x = (of_char c :: nat) in
      if of_char CHR ''A'' \<le> x \<and> x \<le> of_char CHR ''Z'' then Some (x - of_char CHR ''A'')
      else if of_char CHR ''a'' \<le> x \<and> x \<le> of_char CHR ''z'' then Some (x - of_char CHR ''a'' + 26)
      else if of_char CHR ''0'' \<le> x \<and> x \<le> of_char CHR ''9'' then Some (x - of_char CHR ''0'' + 52)
      else if c = CHR ''+'' then Some 62
      else if c = CHR ''/'' then Some 63
      else if c = CHR ''='' \<and> i = xpos then Some 0
      else None)"

text \<open>
  The \<open>for\<close> loop over the body. The third argument is the part of the body from index
  \<open>i\<close> on, \<open>v\<close> is the 6-bit accumulator and \<open>out\<close> the bytes stored through \<open>cp\<close> so far.
  \<open>v\<close> is reset after every fourth character, so it stays below \<open>2 ^ 24\<close> and the C
  \<open>int\<close> cannot overflow; the stores into \<open>unsigned char\<close> truncate to 8 bits.
\<close>

fun hdrid_loop :: "nat \<Rightarrow> nat \<Rightarrow> string \<Rightarrow> nat \<Rightarrow> byte list \<Rightarrow> byte list option" where
  "hdrid_loop xpos i [] v out = Some out"
| "hdrid_loop xpos i (c # cs) v out =
     (case hdrid_digit xpos i c of
        None \<Rightarrow> None
      | Some x \<Rightarrow>
          (let v' = or (push_bit 6 v) x in
           if i mod 4 = 3 then
             hdrid_loop xpos (Suc i) cs 0
               (out @ [of_nat (drop_bit 16 v'), of_nat (drop_bit 8 v')]
                    @ (if i \<noteq> xpos then [of_nat v'] else []))
           else hdrid_loop xpos (Suc i) cs v' out))"

text \<open>
  \<open>apk_add_hdrid\<close>: \<open>None\<close> when nothing is written, otherwise the algorithm tag and the
  digest bytes that \<open>repodata_set_bin_checksum\<close> stores under \<open>SOLVABLE_HDRID\<close>.
\<close>

definition apk_add_hdrid :: "string \<Rightarrow> (chksumtype \<times> byte list) option" where
  "apk_add_hdrid idstr =
     (let l = length idstr in
      if ((l = 30 \<or> l = 46) \<and> cchar idstr 0 = CHR ''Q'' \<and> cchar idstr 1 = CHR ''1'')
         \<or> (cchar idstr 1 = CHR ''2'' \<and> l = 46)
      then
        (let xpos = (if cchar idstr 1 = CHR ''2'' then 43 else 27 :: nat);
             l' = l - 2
         in case hdrid_loop xpos 0 (drop 2 idstr) 0 [] of
              None \<Rightarrow> None
            | Some chksum \<Rightarrow>
                (let ty = (if l' = 28 then REPOKEY_TYPE_SHA1 else REPOKEY_TYPE_SHA256)
                 in Some (ty, take (solv_chksum_len ty) chksum)))
      else None)"

subsection \<open>The interning pool and package records\<close>

text \<open>
  Modelled from the spec: the package database and its interning pool (pool.h, poolid.h,
  knownid.h) are not part of the source. Interning gives identical contents identical
  identifiers, so an \<open>Id\<close> is represented by the content it was interned from: \<open>ID_NULL\<close>
  is the identifier 0 ("no id"), \<open>StrId\<close> a string identifier, \<open>RelId\<close> a relation identifier
  (name, version and operator flags). All interning calls of the source pass
  \<open>create = 1\<close> and a non-null string, so they never answer 0; the empty string has the
  identifier \<open>ID_EMPTY\<close>, the string "noarch" the identifier \<open>ARCH_NOARCH\<close>.
\<close>

datatype Id = ID_NULL | StrId string | RelId Id Id nat

definition ID_EMPTY :: Id where
  "ID_EMPTY = StrId []"

definition ARCH_NOARCH :: Id where
  "ARCH_NOARCH = StrId ''noarch''"

definition pool_str2id :: "string \<Rightarrow> Id" where
  "pool_str2id str = StrId str"

definition pool_strn2id :: "string \<Rightarrow> Id" where
  \<comment> \<open>the argument is the \<open>len\<close> characters starting at \<open>str\<close>\<close>
  "pool_strn2id str = StrId str"

definition pool_rel2id :: "Id \<Rightarrow> Id \<Rightarrow> nat \<Rightarrow> Id" where
  "pool_rel2id name evr flags = RelId name evr flags"

fun pool_id2str :: "Id \<Rightarrow> string" where
  "pool_id2str ID_NULL = ''<NULL>''"
| "pool_id2str (StrId str) = str"
| "pool_id2str (RelId name evr flags) = pool_id2str name"

text \<open>
  Modelled from the spec: the relation flags are macros of pool.h, distinct bits of an
  \<open>int\<close>.
\<close>

definition REL_GT :: nat where "REL_GT = 1"
definition REL_EQ :: nat where "REL_EQ = 2"
definition REL_LT :: nat where "REL_LT = 4"
definition REL_AND :: nat where "REL_AND = 16"

text \<open>The key names the source uses, for the relation lists and for the attributes.\<close>

datatype keyname =
    SOLVABLE_PROVIDES | SOLVABLE_REQUIRES | SOLVABLE_CONFLICTS | SOLVABLE_SUPPLEMENTS
  | SOLVABLE_SUMMARY | SOLVABLE_DESCRIPTION | SOLVABLE_URL | SOLVABLE_BUILDTIME
  | SOLVABLE_INSTALLSIZE | SOLVABLE_PACKAGER | SOLVABLE_LICENSE | SOLVABLE_SOURCENAME
  | SOLVABLE_PKGID | SOLVABLE_HDRID | SOLVABLE_MEDIAFILE

text \<open>The fields of \<open>Solvable\<close> that the source writes. A fresh solvable is all zero.\<close>

record solvable =
  name :: Id
  arch :: Id
  evr :: Id
  provides :: "Id list"
  requires :: "Id list"
  conflicts :: "Id list"
  supplements :: "Id list"

definition new_solvable :: solvable where
  "new_solvable = \<lparr>name = ID_NULL, arch = ID_NULL, evr = ID_NULL, provides = [],
     requires = [], conflicts = [], supplements = []\<rparr>"

text \<open>
  Modelled from the spec: \<open>repo_addid_dep\<close> (repo.h) is not part of the source; with the
  marker 0 that every call passes, it appends the identifier to the relation list.
\<close>

definition repo_addid_dep :: "Id list \<Rightarrow> Id \<Rightarrow> Id list" where
  "repo_addid_dep olddeps id' = olddeps @ [id']"

subsection \<open>Dependency expression parser: \<open>add_deps\<close>\<close>

definition is_blank :: "char \<Rightarrow> bool" where
  "is_blank c \<longleftrightarrow> c = CHR '' '' \<or> c = CHR 0x09"

text \<open>The characters at which the scan of an atom's name stops (besides the terminator).\<close>

definition is_name_end :: "char \<Rightarrow> bool" where
  "is_name_end c \<longleftrightarrow> c = CHR '' '' \<or> c = CHR 0x09 \<or> c = CHR ''<'' \<or> c = CHR ''>''
     \<or> c = CHR ''='' \<or> c = CHR ''~''"

text \<open>The \<open>for\<close> loop over the operator characters: the rest of the line and the flags.\<close>

fun scan_ops :: "string \<Rightarrow> nat \<Rightarrow> string \<times> nat" where
  "scan_ops [] flags = ([], flags)"
| "scan_ops (c # p) flags =
     (if c = CHR ''<'' then scan_ops p (or flags REL_LT)
      else if c = CHR ''>'' then scan_ops p (or flags REL_GT)
      else if c = CHR ''='' then scan_ops p (or flags REL_EQ)
      else (c # p, flags))"

text \<open>
  One pass through the body of the \<open>while\<close> loop, up to the computation of \<open>id\<close>: the
  list the atom goes to, its identifier, and the rest of the line.
\<close>

definition add_deps_atom :: "keyname \<Rightarrow> string \<Rightarrow> keyname \<times> Id \<times> string" where
  "add_deps_atom oldwhat p0 =
     (let p1 = dropWhile is_blank p0;
          bang = (oldwhat = SOLVABLE_REQUIRES \<and> p1 \<noteq> [] \<and> hd p1 = CHR ''!'');
          what = (if bang then SOLVABLE_CONFLICTS else oldwhat);
          p2 = (if bang then tl p1 else p1);
          pn = takeWhile (\<lambda>c. \<not> is_name_end c) p2;
          p3 = dropWhile (\<lambda>c. \<not> is_name_end c) p2;
          id' = pool_strn2id pn;
          (p4, flags0) = scan_ops p3 0;
          flags = (if p4 \<noteq> [] \<and> hd p4 = CHR ''~'' then or flags0 REL_EQ else flags0)
      in if flags \<noteq> 0 then
           (let pv = takeWhile (\<lambda>c. \<not> is_blank c) p4;
                p5 = dropWhile (\<lambda>c. \<not> is_blank c) p4
            in (what, pool_rel2id id' (pool_strn2id pv) flags, p5))
         else (what, id', p4))"

text \<open>
  The end of the loop body: the identifier is added to the list selected by \<open>what\<close>; for
  \<open>SOLVABLE_SUPPLEMENTS\<close> it is combined into the local \<open>supplements\<close> instead.
\<close>

definition add_deps_store :: "keyname \<Rightarrow> Id \<Rightarrow> solvable \<times> Id \<Rightarrow> solvable \<times> Id" where
  "add_deps_store what id' st =
     (let s = fst st; supplements' = snd st in
      if what = SOLVABLE_PROVIDES then (s\<lparr>provides := repo_addid_dep (provides s) id'\<rparr>, supplements')
      else if what = SOLVABLE_REQUIRES then (s\<lparr>requires := repo_addid_dep (requires s) id'\<rparr>, supplements')
      else if what = SOLVABLE_CONFLICTS then (s\<lparr>conflicts := repo_addid_dep (conflicts s) id'\<rparr>, supplements')
      else if what = SOLVABLE_SUPPLEMENTS then
        (s, if supplements' \<noteq> ID_NULL then pool_rel2id id' supplements' REL_AND else id')
      else (s, supplements'))"

text \<open>Every pass through the loop body consumes at least one character of a non-empty rest.\<close>

lemma scan_ops_length: "length (fst (scan_ops p flags)) \<le> length p"
  by (induction p flags rule: scan_ops.induct) auto

lemma scan_ops_progress:
  "p \<noteq> [] \<Longrightarrow> hd p = CHR ''<'' \<or> hd p = CHR ''>'' \<or> hd p = CHR ''='' \<Longrightarrow>
   length (fst (scan_ops p flags)) < length p"
  using scan_ops_length [of "tl p"] by (cases p) (auto simp: less_Suc_eq_le)

lemma scan_ops_stop:
  "p \<noteq> [] \<Longrightarrow> hd p \<noteq> CHR ''<'' \<Longrightarrow> hd p \<noteq> CHR ''>'' \<Longrightarrow> hd p \<noteq> CHR ''='' \<Longrightarrow>
   scan_ops p flags = (p, flags)"
  by (cases p) auto

lemma dropWhile_progress:
  "xs \<noteq> [] \<Longrightarrow> P (hd xs) \<Longrightarrow> length (dropWhile P xs) < length xs"
  using length_dropWhile_le [of P "tl xs"] by (cases xs) (auto simp: less_Suc_eq_le)

lemma add_deps_atom_progress:
  assumes "p \<noteq> []"
  shows "length (snd (snd (add_deps_atom oldwhat p))) < length p"
proof -
  define p1 where "p1 = dropWhile is_blank p"
  define bang where "bang \<longleftrightarrow> oldwhat = SOLVABLE_REQUIRES \<and> p1 \<noteq> [] \<and> hd p1 = CHR ''!''"
  define p2 where "p2 = (if bang then tl p1 else p1)"
  define p3 where "p3 = dropWhile (\<lambda>c. \<not> is_name_end c) p2"
  define p4 where "p4 = fst (scan_ops p3 0)"
  define flags0 where "flags0 = snd (scan_ops p3 0)"
  define flags where "flags = (if p4 \<noteq> [] \<and> hd p4 = CHR ''~'' then or flags0 REL_EQ else flags0)"
  define p5 where "p5 = dropWhile (\<lambda>c. \<not> is_blank c) p4"
  have rest: "snd (snd (add_deps_atom oldwhat p)) = (if flags \<noteq> 0 then p5 else p4)"
    unfolding add_deps_atom_def Let_def split_beta p5_def flags_def flags0_def p4_def p3_def
      p2_def bang_def p1_def
    by (simp only: if_distrib [of "\<lambda>x. snd (snd x)"] snd_conv)
  have l1: "length p1 \<le> length p" by (simp add: p1_def length_dropWhile_le)
  have l2: "length p2 \<le> length p1" by (simp add: p2_def)
  have l3: "length p3 \<le> length p2" by (simp add: p3_def length_dropWhile_le)
  have l4: "length p4 \<le> length p3" by (simp add: p4_def scan_ops_length)
  have l5: "length p5 \<le> length p4" by (simp add: p5_def length_dropWhile_le)
  have "length p5 < length p \<and> (flags = 0 \<longrightarrow> length p4 < length p)"
  proof (cases "is_blank (hd p)")
    case True
    with assms have "length p1 < length p" by (simp add: p1_def dropWhile_progress)
    with l2 l3 l4 l5 show ?thesis by simp
  next
    case nb: False
    with assms have p1: "p1 = p" by (cases p) (auto simp: p1_def)
    show ?thesis
    proof (cases bang)
      case True
      with assms p1 have "length p2 < length p" by (cases p) (auto simp: p2_def)
      with l3 l4 l5 show ?thesis by simp
    next
      case False
      with p1 have p2: "p2 = p" by (simp add: p2_def)
      show ?thesis
      proof (cases "is_name_end (hd p)")
        case False
        with assms p2 have "length p3 < length p" by (simp add: p3_def dropWhile_progress)
        with l4 l5 show ?thesis by simp
      next
        case True
        with assms p2 have p3: "p3 = p" by (cases p) (auto simp: p3_def)
        show ?thesis
        proof (cases "hd p = CHR ''~''")
          case True
          with assms p3 have p4: "p4 = p" and "flags0 = 0"
            by (simp_all add: p4_def flags0_def scan_ops_stop)
          with True assms have "flags \<noteq> 0" by (simp add: flags_def REL_EQ_def)
          moreover from True assms p4 have "length p5 < length p"
            by (simp add: p5_def dropWhile_progress is_blank_def)
          ultimately show ?thesis by simp
        next
          case False
          with True nb have "hd p = CHR ''<'' \<or> hd p = CHR ''>'' \<or> hd p = CHR ''=''"
            by (auto simp: is_name_end_def is_blank_def)
          with assms p3 have "length p4 < length p"
            by (simp add: p4_def scan_ops_progress)
          with l5 show ?thesis by simp
        qed
      qed
    qed
  qed
  with rest show ?thesis by simp
qed

lemma add_deps_atom_shorter:
  "(what, id', p') = add_deps_atom oldwhat p \<Longrightarrow> p \<noteq> [] \<Longrightarrow> length p' < length p"
  using add_deps_atom_progress [of p oldwhat] by (cases "add_deps_atom oldwhat p") simp

text \<open>
  The \<open>while (*p)\<close> loop, on the solvable and the local \<open>supplements\<close>; \<open>what\<close> is reset
  to \<open>oldwhat\<close> at every pass.
\<close>

function add_deps_loop :: "keyname \<Rightarrow> string \<Rightarrow> solvable \<times> Id \<Rightarrow> solvable \<times> Id" where
  "add_deps_loop oldwhat p st =
     (if p = [] then st
      else case add_deps_atom oldwhat p of
             (what, id', p') \<Rightarrow> add_deps_loop oldwhat p' (add_deps_store what id' st))"
  by pat_completeness auto
termination
  by (relation "measure (\<lambda>(oldwhat, p, st). length p)") (auto intro: add_deps_atom_shorter)

definition add_deps :: "solvable \<Rightarrow> keyname \<Rightarrow> string \<Rightarrow> solvable" where
  "add_deps s what p =
     (case add_deps_loop what p (s, ID_NULL) of
        (s', supplements') \<Rightarrow>
          if supplements' \<noteq> ID_NULL
          then s'\<lparr>supplements := repo_addid_dep (supplements s') supplements'\<rparr>
          else s')"

subsection \<open>The repository and its attribute store\<close>

text \<open>
  Modelled from the spec: the attribute store (repodata.h) is not part of the source. It is
  a sparse mapping from (record handle, key) to a typed value, and a setter replaces what
  the key held. The digest primitives (chksum.h) are not part of the source either: a
  digest computed by the code is kept as \<open>ADigestOf\<close>, the algorithm and the bytes that
  were fed to it, a digest given by its bytes as \<open>AChksum\<close>.
\<close>

datatype attrval =
    AStr string
  | ANum nat
  | AId Id
  | AVoid
  | AIdArray "Id list"
  | AChksum chksumtype "byte list"
  | ADigestOf chksumtype "byte list"
  | ALocation string

text \<open>
  \<open>solvables\<close> are the records of the repository in handle order, \<open>attrs\<close> the attribute
  store and \<open>errors\<close> the messages given to \<open>pool_error\<close>. The parsers hold a pointer \<open>s\<close>
  to the record they are filling, which is the last one of \<open>pool->solvables\<close>: the
  array of the source is \<open>solvables\<close> followed by that record while \<open>s\<close> is set, and the
  handle \<open>s - pool->solvables\<close> is \<open>length solvables\<close>.
\<close>

record repo =
  solvables :: "solvable list"
  attrs :: "nat \<times> keyname \<Rightarrow> attrval option"
  errors :: "string list"

definition pool_error :: "string \<Rightarrow> repo \<Rightarrow> repo" where
  "pool_error msg r = r\<lparr>errors := errors r @ [msg]\<rparr>"

definition repodata_set :: "nat \<Rightarrow> keyname \<Rightarrow> attrval \<Rightarrow> repo \<Rightarrow> repo" where
  "repodata_set h k v r = r\<lparr>attrs := (attrs r)((h, k) \<mapsto> v)\<rparr>"

definition repodata_add_poolstr_array :: "nat \<Rightarrow> keyname \<Rightarrow> string \<Rightarrow> repo \<Rightarrow> repo" where
  "repodata_add_poolstr_array h k str r =
     repodata_set h k
       (AIdArray ((case attrs r (h, k) of Some (AIdArray ids) \<Rightarrow> ids | _ \<Rightarrow> []) @ [pool_str2id str])) r"

text \<open>
  Modelled from the spec: discarding the record of handle \<open>h\<close> (\<open>repo_free_solvable\<close>,
  \<open>solvable_free\<close>) gives the slot back and drops the attributes written for it.
\<close>

definition repo_free_solvable :: "nat \<Rightarrow> repo \<Rightarrow> repo" where
  "repo_free_solvable h r = r\<lparr>attrs := (\<lambda>(h', k). if h' = h then None else attrs r (h', k))\<rparr>"

text \<open>
  Modelled from the C library: \<open>strtoull(str, 0, 10)\<close> skips white space, takes an optional
  sign and the decimal digits that follow, saturates at \<open>2 ^ 64 - 1\<close> and negates modulo
  \<open>2 ^ 64\<close> after a minus sign.
\<close>

definition c_isspace :: "char \<Rightarrow> bool" where
  "c_isspace c \<longleftrightarrow> c = CHR '' '' \<or> (9 \<le> (of_char c :: nat) \<and> (of_char c :: nat) \<le> 13)"

definition c_isdigit :: "char \<Rightarrow> bool" where
  "c_isdigit c \<longleftrightarrow> of_char CHR ''0'' \<le> (of_char c :: nat) \<and> (of_char c :: nat) \<le> of_char CHR ''9''"

definition strtoull :: "string \<Rightarrow> nat" where
  "strtoull str =
     (let p = dropWhile c_isspace str;
          neg = (p \<noteq> [] \<and> hd p = CHR ''-'');
          p' = (if p \<noteq> [] \<and> (hd p = CHR ''-'' \<or> hd p = CHR ''+'') then tl p else p);
          v = foldl (\<lambda>a c. 10 * a + (of_char c - of_char CHR ''0'')) 0 (takeWhile c_isdigit p')
      in if 2 ^ 64 \<le> v then 2 ^ 64 - 1
         else if neg then (2 ^ 64 - v) mod 2 ^ 64
         else v)"

text \<open>
  \<open>tarhead_gets\<close> hands over one raw line, newline included, and its length, 0 at the end of
  the entry. The parsers then take \<open>strlen\<close> of it and cut a final newline.
\<close>

definition chomp :: "string \<Rightarrow> string" where
  "chomp raw =
     (let line = takeWhile (\<lambda>c. c \<noteq> CHR 0x00) raw
      in if line \<noteq> [] \<and> last line = CHR 0x0A then butlast line else line)"

subsection \<open>Finishing a record\<close>

text \<open>
  The block that finishes a record that has a name: the defaults, the self-provides and the
  default source name. The source has it twice, word for word, in \<open>repo_add_apk_pkg\<close> and
  in \<open>apk_process_index\<close>; \<open>h\<close> is the handle \<open>s - pool->solvables\<close>.
\<close>

definition finish_solvable :: "nat \<Rightarrow> bool \<Rightarrow> repo \<times> solvable \<Rightarrow> repo \<times> solvable" where
  "finish_solvable h haveorigin st =
     (let r = fst st; s = snd st;
          s1 = (if arch s = ID_NULL then s\<lparr>arch := ARCH_NOARCH\<rparr> else s);
          s2 = (if evr s1 = ID_NULL then s1\<lparr>evr := ID_EMPTY\<rparr> else s1);
          s3 = (if name s2 \<noteq> ID_NULL
                then s2\<lparr>provides := repo_addid_dep (provides s2) (pool_rel2id (name s2) (evr s2) REL_EQ)\<rparr>
                else s2);
          r' = (if name s3 \<noteq> ID_NULL \<and> \<not> haveorigin
                then repodata_set h SOLVABLE_SOURCENAME AVoid r else r)
      in (r', s3))"

subsection \<open>Archive dialect: \<open>repo_add_apk_pkg\<close>\<close>

datatype flag =
    REPO_USE_ROOTDIR | REPO_NO_LOCATION | REPO_NO_INTERNALIZE
  | APK_ADD_WITH_PKGID | APK_ADD_WITH_HDRID | APK_ADD_INDEX

text \<open>
  Modelled from the spec: the archive-segment reader (tarhead.h) is not part of the source.
  An entry is what \<open>tarhead_next\<close> reports of it, with the raw lines that \<open>tarhead_gets\<close>
  hands over when the entry is read.
\<close>

record tarentry =
  th_type :: nat
  th_path :: string
  th_length :: nat
  th_lines :: "string list"

text \<open>
  The dispatch on the key of one metadata line, on the attribute store, the record and
  \<open>haveorigin\<close>.
\<close>

definition pkginfo_field :: "nat \<Rightarrow> string \<Rightarrow> repo \<times> solvable \<times> bool \<Rightarrow> repo \<times> solvable \<times> bool" where
  "pkginfo_field h line st =
     (let data = fst st; s = fst (snd st); haveorigin = snd (snd st) in
      if take 10 line = ''pkgname = '' then (data, s\<lparr>name := pool_str2id (drop 10 line)\<rparr>, haveorigin)
      else if take 9 line = ''pkgver = '' then (data, s\<lparr>evr := pool_str2id (drop 9 line)\<rparr>, haveorigin)
      else if take 10 line = ''pkgdesc = '' then
        (repodata_set h SOLVABLE_DESCRIPTION (AStr (drop 10 line))
           (repodata_set h SOLVABLE_SUMMARY (AStr (drop 10 line)) data), s, haveorigin)
      else if take 6 line = ''url = '' then
        (repodata_set h SOLVABLE_URL (AStr (drop 6 line)) data, s, haveorigin)
      else if take 12 line = ''builddate = '' then
        (repodata_set h SOLVABLE_BUILDTIME (ANum (strtoull (drop 12 line))) data, s, haveorigin)
      else if take 11 line = ''packager = '' then
        (repodata_set h SOLVABLE_PACKAGER (AId (pool_str2id (drop 11 line))) data, s, haveorigin)
      else if take 7 line = ''size = '' then
        (repodata_set h SOLVABLE_INSTALLSIZE (ANum (strtoull (drop 7 line))) data, s, haveorigin)
      else if take 7 line = ''arch = '' then (data, s\<lparr>arch := pool_str2id (drop 7 line)\<rparr>, haveorigin)
      else if take 10 line = ''license = '' then
        (repodata_add_poolstr_array h SOLVABLE_LICENSE (drop 10 line) data, s, haveorigin)
      else if take 9 line = ''origin = '' then
        (if name s \<noteq> ID_NULL \<and> drop 9 line = pool_id2str (name s)
         then (repodata_set h SOLVABLE_SOURCENAME AVoid data, s, True)
         else (repodata_set h SOLVABLE_SOURCENAME (AId (pool_str2id (drop 9 line))) data, s, True))
      else if take 9 line = ''depend = '' then (data, add_deps s SOLVABLE_REQUIRES (drop 9 line), haveorigin)
      else if take 11 line = ''provides = '' then (data, add_deps s SOLVABLE_PROVIDES (drop 11 line), haveorigin)
      else if take 13 line = ''install_if = '' then
        (data, add_deps s SOLVABLE_SUPPLEMENTS (drop 13 line), haveorigin)
      else st)"

text \<open>
  The body of the \<open>while ((l = tarhead_gets(...)) > 0)\<close> loop for the raw line \<open>raw\<close>.
  \<open>pkgidchk\<close> holds the bytes given to the MD5 accumulator, if there is one.
\<close>

definition pkginfo_line ::
  "nat \<Rightarrow> string \<Rightarrow> (repo \<times> solvable \<times> bool) \<times> byte list option
     \<Rightarrow> (repo \<times> solvable \<times> bool) \<times> byte list option" where
  "pkginfo_line h raw acc =
     (let st = fst acc;
          pkgidchk = map_option (\<lambda>d. d @ map of_char raw) (snd acc);
          line = chomp raw
      in if line = [] \<or> hd line = CHR ''#'' then (st, pkgidchk)
         else (pkginfo_field h line st, pkgidchk))"

text \<open>The loop over the lines of the metadata entry; it ends when \<open>l\<close> is 0.\<close>

fun pkginfo_lines ::
  "nat \<Rightarrow> string list \<Rightarrow> (repo \<times> solvable \<times> bool) \<times> byte list option
     \<Rightarrow> (repo \<times> solvable \<times> bool) \<times> byte list option" where
  "pkginfo_lines h [] acc = acc"
| "pkginfo_lines h (raw # rest) acc =
     (if raw = [] then acc else pkginfo_lines h rest (pkginfo_line h raw acc))"

text \<open>The locals of \<open>repo_add_apk_pkg\<close> that the loop over the entries changes.\<close>

record pkgstate =
  pk_repo :: repo
  pk_s :: "solvable option"
  pk_pkgidchk :: "byte list option"
  pk_haveorigin :: bool

text \<open>The \<open>while (tarhead_next(&th) > 0)\<close> loop; the oversized entry leaves it by \<open>break\<close>.\<close>

fun pkg_entries :: "flag set \<Rightarrow> string \<Rightarrow> tarentry list \<Rightarrow> pkgstate \<Rightarrow> pkgstate" where
  "pkg_entries flags fn [] st = st"
| "pkg_entries flags fn (th # ths) st =
     (if th_type th \<noteq> 1 \<or> th_path th \<noteq> ''.PKGINFO'' \<or> pk_s st \<noteq> None
      then pkg_entries flags fn ths st
      else if th_length th > 10 * 1024 * 1024
      then st\<lparr>pk_repo := pool_error (fn @ '': oversized .PKGINFO'') (pk_repo st)\<rparr>
      else
        (let h = length (solvables (pk_repo st));
             pkgidchk = (if APK_ADD_WITH_PKGID \<in> flags then Some [] else pk_pkgidchk st);
             acc = pkginfo_lines h (th_lines th)
                     ((pk_repo st, new_solvable, pk_haveorigin st), pkgidchk)
         in pkg_entries flags fn ths
              \<lparr>pk_repo = fst (fst acc), pk_s = Some (fst (snd (fst acc))),
               pk_pkgidchk = snd acc, pk_haveorigin = snd (snd (fst acc))\<rparr>))"

text \<open>
  What the call finds in the file: whether \<open>open\<close>, the \<open>inflateInit2\<close> of \<open>apkz_open\<close> and
  \<open>solv_cookieopen\<close> succeed, the message \<open>strerror(errno)\<close> gives if not, the result of
  \<open>apkz_reset\<close> once the signature segment has been read to its end, the entries
  \<open>tarhead_next\<close> then finds, and the raw bytes that the reads of these entries report to
  \<open>readcb\<close>.
\<close>

record apk_file =
  af_open :: bool
  af_zopen :: bool
  af_cookieopen :: bool
  af_strerror :: string
  af_reset :: int
  af_entries :: "tarentry list"
  af_readcb_bytes :: "byte list"

text \<open>
  \<open>repo_add_apk_pkg\<close>: a call that returns gives \<open>Some\<close> of the repository after the call
  and the handle returned, the handle being \<open>None\<close> for the return value 0. When
  \<open>inflateInit2\<close> fails, \<open>apkz_open\<close> gives \<open>solv_free\<close> the address of the member \<open>zs\<close>, which
  lies inside the block it allocated: from there on the behaviour of the call is undefined,
  and the whole call has the result \<open>None\<close>. This is the only way for \<open>apkz_open\<close> to return
  0, so the branch of \<open>repo_add_apk_pkg\<close> for that value is never taken. What \<open>repodata_set_location\<close> stores is kept as one entry under
  \<open>SOLVABLE_MEDIAFILE\<close>; \<open>repo_add_repodata\<close> and \<open>repodata_internalize\<close> do not change what
  the attribute store holds and have no counterpart.
\<close>

definition repo_add_apk_pkg ::
  "repo \<Rightarrow> string \<Rightarrow> apk_file \<Rightarrow> flag set \<Rightarrow> (repo \<times> nat option) option" where
  "repo_add_apk_pkg repo' fn file flags =
     (if \<not> af_open file then Some (pool_error (fn @ '': '' @ af_strerror file) repo', None)
      else if \<not> af_zopen file then None
      else if \<not> af_cookieopen file then Some (pool_error (fn @ '': '' @ af_strerror file) repo', None)
      else if af_reset file \<noteq> 1 then Some (pool_error (fn @ '': unexpected EOF'') repo', None)
      else
        (let q1chk = (if APK_ADD_WITH_HDRID \<in> flags then Some (af_readcb_bytes file) else None);
             st = pkg_entries flags fn (af_entries file)
                    \<lparr>pk_repo = repo', pk_s = None, pk_pkgidchk = None, pk_haveorigin = False\<rparr>;
             h = length (solvables (pk_repo st))
         in case pk_s st of
              None \<Rightarrow> Some (pk_repo st, None)
            | Some s \<Rightarrow>
                if name s = ID_NULL
                then Some (repo_free_solvable h
                             (pool_error (fn @ '': package has no name'') (pk_repo st)), None)
                else
                  (let fin = finish_solvable h (pk_haveorigin st) (pk_repo st, s);
                       r1 = (case pk_pkgidchk st of
                               Some d \<Rightarrow> repodata_set h SOLVABLE_PKGID (ADigestOf REPOKEY_TYPE_MD5 d) (fst fin)
                             | None \<Rightarrow> fst fin);
                       r2 = (case q1chk of
                               Some d \<Rightarrow> repodata_set h SOLVABLE_HDRID (ADigestOf REPOKEY_TYPE_SHA1 d) r1
                             | None \<Rightarrow> r1);
                       r3 = (if REPO_NO_LOCATION \<notin> flags
                             then repodata_set h SOLVABLE_MEDIAFILE (ALocation fn) r2 else r2)
                   in Some (r3\<lparr>solvables := solvables r3 @ [snd fin]\<rparr>, Some h))))"

subsection \<open>Vocabulary for the statements about the archive dialect\<close>

text \<open>
  The raw lines that the dispatch of \<open>repo_add_apk_pkg\<close> takes as a name field and as a
  source-name field.
\<close>

definition is_pkgname_line :: "string \<Rightarrow> bool" where
  "is_pkgname_line raw \<longleftrightarrow> take 10 (chomp raw) = ''pkgname = ''"

definition is_origin_line :: "string \<Rightarrow> bool" where
  "is_origin_line raw \<longleftrightarrow> take 9 (chomp raw) = ''origin = ''"

text \<open>
  An archive that can be read up to its metadata: the file opens, the adapter is positioned
  on the control segment, and \<open>th\<close> is the first regular entry called \<open>.PKGINFO\<close>, of at
  most 10 MiB, whose raw lines are all handed over (none has the length 0 that ends the
  loop).
\<close>

definition pkginfo_archive :: "apk_file \<Rightarrow> tarentry list \<Rightarrow> tarentry \<Rightarrow> tarentry list \<Rightarrow> bool" where
  "pkginfo_archive file sk th rest \<longleftrightarrow>
     af_open file \<and> af_zopen file \<and> af_cookieopen file \<and> af_reset file = 1 \<and>
     af_entries file = sk @ th # rest \<and>
     (\<forall>e\<in>set sk. th_type e \<noteq> 1 \<or> th_path e \<noteq> ''.PKGINFO'') \<and>
     th_type th = 1 \<and> th_path th = ''.PKGINFO'' \<and> th_length th \<le> 10 * 1024 * 1024 \<and>
     (\<forall>l\<in>set (th_lines th). l \<noteq> [])"

text \<open>
  Concrete inputs: a repository without records, and the archive whose control segment
  has the single entry \<open>.PKGINFO\<close> of declared size \<open>n\<close> and raw lines \<open>ls\<close>.
\<close>

definition empty_repo :: repo where
  "empty_repo = \<lparr>solvables = [], attrs = (\<lambda>k. None), errors = []\<rparr>"

definition pkginfo_file :: "nat \<Rightarrow> string list \<Rightarrow> apk_file" where
  "pkginfo_file n ls =
     \<lparr>af_open = True, af_zopen = True, af_cookieopen = True, af_strerror = [], af_reset = 1,
      af_entries = [\<lparr>th_type = 1, th_path = ''.PKGINFO'', th_length = n, th_lines = ls\<rparr>],
      af_readcb_bytes = []\<rparr>"

subsection \<open>Index dialect: \<open>apk_process_index\<close> and \<open>repo_add_apk_repo\<close>\<close>

definition apkindex_field :: "nat \<Rightarrow> string \<Rightarrow> repo \<times> solvable \<times> bool \<Rightarrow> repo \<times> solvable \<times> bool" where
  "apkindex_field h line st =
     (let data = fst st; s = fst (snd st); haveorigin = snd (snd st); c = hd line in
      if c = CHR ''P'' then (data, s\<lparr>name := pool_str2id (drop 2 line)\<rparr>, haveorigin)
      else if c = CHR ''V'' then (data, s\<lparr>evr := pool_str2id (drop 2 line)\<rparr>, haveorigin)
      else if c = CHR ''T'' then
        (repodata_set h SOLVABLE_DESCRIPTION (AStr (drop 2 line))
           (repodata_set h SOLVABLE_SUMMARY (AStr (drop 2 line)) data), s, haveorigin)
      else if c = CHR ''U'' then
        (repodata_set h SOLVABLE_URL (AStr (drop 2 line)) data, s, haveorigin)
      else if c = CHR ''t'' then
        (repodata_set h SOLVABLE_BUILDTIME (ANum (strtoull (drop 2 line))) data, s, haveorigin)
      else if c = CHR ''I'' then
        (repodata_set h SOLVABLE_INSTALLSIZE (ANum (strtoull (drop 2 line))) data, s, haveorigin)
      else if c = CHR ''A'' then (data, s\<lparr>arch := pool_str2id (drop 2 line)\<rparr>, haveorigin)
      else if c = CHR ''L'' then
        (repodata_add_poolstr_array h SOLVABLE_LICENSE (drop 2 line) data, s, haveorigin)
      else if c = CHR ''o'' then
        (if name s \<noteq> ID_NULL \<and> drop 2 line = pool_id2str (name s)
         then (repodata_set h SOLVABLE_SOURCENAME AVoid data, s, True)
         else (repodata_set h SOLVABLE_SOURCENAME (AId (pool_str2id (drop 2 line))) data, s, True))
      else if c = CHR ''D'' then (data, add_deps s SOLVABLE_REQUIRES (drop 2 line), haveorigin)
      else if c = CHR ''p'' then (data, add_deps s SOLVABLE_PROVIDES (drop 2 line), haveorigin)
      else if c = CHR ''i'' then (data, add_deps s SOLVABLE_SUPPLEMENTS (drop 2 line), haveorigin)
      else if c = CHR ''C'' then
        (case apk_add_hdrid (drop 2 line) of
           None \<Rightarrow> st
         | Some (ty, chksum) \<Rightarrow> (repodata_set h SOLVABLE_HDRID (AChksum ty chksum) data, s, haveorigin))
      else st)"

text \<open>
  "finish old solvable": the open record, if there is one, is freed when it has no name and
  finished otherwise; then \<open>s = 0\<close>.
\<close>

definition index_finish :: "repo \<times> solvable option \<times> bool \<Rightarrow> repo \<times> solvable option \<times> bool" where
  "index_finish st =
     (let r = fst st; haveorigin = snd (snd st) in
      case fst (snd st) of
        None \<Rightarrow> st
      | Some s \<Rightarrow>
          if name s = ID_NULL
          then (repo_free_solvable (length (solvables r)) r, None, haveorigin)
          else
            (let fin = finish_solvable (length (solvables r)) haveorigin (r, s)
             in ((fst fin)\<lparr>solvables := solvables (fst fin) @ [snd fin]\<rparr>, None, haveorigin)))"

text \<open>
  The body of the \<open>for (;;)\<close> loop of \<open>apk_process_index\<close> for a raw line \<open>raw\<close> that is
  not the end of the input, on the repository, the pointer \<open>s\<close> and \<open>haveorigin\<close>: a blank
  line finishes the open record, a line that has no \<open>:\<close> in second place is passed over,
  and a field line opens a record if none is open.
\<close>

definition index_line :: "string \<Rightarrow> repo \<times> solvable option \<times> bool \<Rightarrow> repo \<times> solvable option \<times> bool" where
  "index_line raw st =
     (let st1 = (if raw = [CHR 0x0A] then index_finish st else st);
          line = chomp raw
      in if length line < 2 \<or> line ! 1 \<noteq> CHR '':'' then st1
         else
           (let r = fst st1;
                s = (case fst (snd st1) of None \<Rightarrow> new_solvable | Some s \<Rightarrow> s);
                haveorigin = (case fst (snd st1) of None \<Rightarrow> False | Some s \<Rightarrow> snd (snd st1));
                st2 = apkindex_field (length (solvables r)) line (r, s, haveorigin)
            in (fst st2, Some (fst (snd st2)), snd (snd st2))))"

text \<open>
  The loop over the raw lines of the index. The end of the lines is \<open>l == 0\<close>: the open
  record is finished and the loop left.
\<close>

fun index_lines :: "string list \<Rightarrow> repo \<times> solvable option \<times> bool \<Rightarrow> repo \<times> solvable option \<times> bool" where
  "index_lines [] st = index_finish st"
| "index_lines (raw # rest) st =
     (if raw = [] then index_finish st else index_lines rest (index_line raw st))"

definition apk_process_index :: "repo \<Rightarrow> string list \<Rightarrow> repo" where
  "apk_process_index repo' lines = fst (index_lines lines (repo', None, False))"

text \<open>
  The stream given to \<open>repo_add_apk_repo\<close>: the raw lines \<open>tarhead_gets\<close> finds when the
  stream is read as an index, and the entries \<open>tarhead_next\<close> finds when it is read as a
  container.
\<close>

record apk_stream =
  fp_lines :: "string list"
  fp_entries :: "tarentry list"

fun index_entries :: "tarentry list \<Rightarrow> repo \<Rightarrow> repo" where
  "index_entries [] r = r"
| "index_entries (th # ths) r =
     (if th_type th \<noteq> 1 \<or> th_path th \<noteq> ''APKINDEX'' then index_entries ths r
      else index_entries ths (apk_process_index r (th_lines th)))"

text \<open>\<open>repo_add_apk_repo\<close>: the repository after the call and the value returned.\<close>

definition repo_add_apk_repo :: "repo \<Rightarrow> apk_stream \<Rightarrow> flag set \<Rightarrow> repo \<times> int" where
  "repo_add_apk_repo repo' fp flags =
     (if APK_ADD_INDEX \<in> flags then (apk_process_index repo' (fp_lines fp), 0)
      else (index_entries (fp_entries fp) repo', 0))"

subsection \<open>Decompressing stream adapter: \<open>apkz_read\<close> and \<open>apkz_reset\<close>\<close>

text \<open>
  zlib is not part of the repository, so the decompressor is a parameter: \<open>z_inflate\<close> is
  given its internal state, the \<open>avail_in\<close> bytes at \<open>next_in\<close> and \<open>avail_out\<close>, and
  answers its return code, how many input bytes it consumed, the bytes it produced and
  its new state; \<open>z_reset\<close> is \<open>inflateReset\<close> on the internal state.
\<close>

record 'z zlib =
  z_inflate :: "'z \<Rightarrow> byte list \<Rightarrow> nat \<Rightarrow> int \<times> nat \<times> byte list \<times> 'z"
  z_reset :: "'z \<Rightarrow> 'z"

definition Z_OK :: int where "Z_OK = 0"
definition Z_STREAM_END :: int where "Z_STREAM_END = 1"
definition Z_BUF_ERROR :: int where "Z_BUF_ERROR = - 5"

text \<open>
  \<open>struct zstream\<close> with the fields of its \<open>z_stream\<close> that matter here. \<open>fd\<close> is the file
  behind the descriptor, as the results of the \<open>read\<close> calls still to come: \<open>None\<close> is a
  failed read, \<open>Some bs\<close> a read of the bytes \<open>bs\<close>, and the end of the list the end of the
  file. \<open>next_in\<close> is an offset into \<open>buf\<close>. \<open>readcb\<close> tells whether a callback is
  registered, and \<open>readcb_calls\<close> lists the calls made to it: the bytes behind the pointer
  and the count.
\<close>

record 'z zstream =
  fd :: "byte list option list"
  eof :: bool
  avail_in :: nat
  next_in :: nat
  avail_out :: nat
  zstate :: 'z
  buf :: "byte list"
  readcb :: bool
  readcb_calls :: "(byte list \<times> nat) list"

text \<open>
  \<open>read(zstream->fd, zstream->buf, sizeof(zstream->buf))\<close>: the result \<open>rr\<close> and the stream
  with the bytes stored in \<open>buf\<close>.
\<close>

definition read_fd :: "'z zstream \<Rightarrow> int \<times> 'z zstream" where
  "read_fd zs =
     (case fd zs of
        [] \<Rightarrow> (0, zs)
      | None # fd' \<Rightarrow> (- 1, zs\<lparr>fd := fd'\<rparr>)
      | Some bs # fd' \<Rightarrow>
          (int (length (take 65536 bs)),
           zs\<lparr>fd := fd', buf := take 65536 bs @ drop (length (take 65536 bs)) (buf zs)\<rparr>))"

text \<open>
  \<open>inflate(&zstream->zs, Z_NO_FLUSH)\<close>: the return code, and the stream with the counters
  moved by what was consumed and produced; \<open>out\<close> are the bytes stored in the caller's
  buffer so far. zlib consumes no more than \<open>avail_in\<close> and produces no more than
  \<open>avail_out\<close>.
\<close>

definition inflate :: "'z zlib \<Rightarrow> 'z zstream \<times> byte list \<Rightarrow> int \<times> 'z zstream \<times> byte list" where
  "inflate Z st =
     (let zs = fst st; out = snd st;
          res = z_inflate Z (zstate zs) (take (avail_in zs) (drop (next_in zs) (buf zs))) (avail_out zs);
          r = fst res;
          c = min (fst (snd res)) (avail_in zs);
          produced = take (avail_out zs) (fst (snd (snd res)))
      in (r,
          zs\<lparr>avail_in := avail_in zs - c, next_in := next_in zs + c,
             avail_out := avail_out zs - length produced, zstate := snd (snd (snd res))\<rparr>,
          out @ produced))"

text \<open>
  The start of a pass through the \<open>for (;;)\<close> loop of \<open>apkz_read\<close>: when the input
  is used up, \<open>buf\<close> is filled again. The result is \<open>rr\<close>, if \<open>read\<close> was called, and the
  stream (which a failed read leaves alone).
\<close>

definition apkz_read_fill :: "'z zstream \<Rightarrow> int option \<times> 'z zstream" where
  "apkz_read_fill zs =
     (if avail_in zs = 0 then
        (let rd = read_fd zs
         in (Some (fst rd),
             if fst rd < 0 then snd rd else (snd rd)\<lparr>avail_in := nat (fst rd), next_in := 0\<rparr>))
      else (None, zs))"

text \<open>
  The call of the callback after \<open>inflate\<close> has answered \<open>r\<close>: it is given the
  \<open>l = old_avail_in - avail_in\<close> bytes before \<open>next_in\<close>.
\<close>

definition apkz_read_cb :: "nat \<Rightarrow> int \<Rightarrow> 'z zstream \<Rightarrow> 'z zstream" where
  "apkz_read_cb old_avail_in r zs =
     (if (r = Z_OK \<or> r = Z_STREAM_END) \<and> readcb zs \<and> avail_in zs < old_avail_in
      then (let l = old_avail_in - avail_in zs
            in zs\<lparr>readcb_calls := readcb_calls zs @ [(take l (drop (next_in zs - l) (buf zs)), l)]\<rparr>)
      else zs)"

text \<open>
  The rest of the pass, from \<open>old_avail_in = zstream->zs.avail_in\<close> on: \<open>Inl\<close> is a
  \<open>return\<close>, with the stream, the bytes stored in the caller's buffer and the value
  returned; \<open>Inr\<close> is the state in which the next pass starts.
\<close>

definition apkz_read_inflate ::
  "'z zlib \<Rightarrow> nat \<Rightarrow> bool \<Rightarrow> 'z zstream \<times> byte list
     \<Rightarrow> ('z zstream \<times> byte list \<times> int) + (bool \<times> 'z zstream \<times> byte list)" where
  "apkz_read_inflate Z len eof' st =
     (let res = inflate Z st;
          r = fst res;
          zs = apkz_read_cb (avail_in (fst st)) r (fst (snd res));
          out = snd (snd res)
      in if r = Z_STREAM_END then Inl (zs\<lparr>eof := True\<rparr>, out, int len - int (avail_out zs))
         else if r \<noteq> Z_OK then Inl (zs, out, - 1)
         else if avail_out zs = 0 then Inl (zs, out, int len)
         else if eof' then Inl (zs, out, - 1)
         else Inr (eof', zs, out))"

text \<open>One pass through the loop, with the local \<open>eof\<close> as \<open>eof'\<close>.\<close>

definition apkz_read_pass ::
  "'z zlib \<Rightarrow> nat \<Rightarrow> bool \<Rightarrow> 'z zstream \<times> byte list
     \<Rightarrow> ('z zstream \<times> byte list \<times> int) + (bool \<times> 'z zstream \<times> byte list)" where
  "apkz_read_pass Z len eof' st =
     (let fill = apkz_read_fill (fst st) in
      case fst fill of
        Some rr \<Rightarrow> if rr < 0 then Inl (snd fill, snd st, rr)
                   else apkz_read_inflate Z len (if rr = 0 then True else eof') (snd fill, snd st)
      | None \<Rightarrow> apkz_read_inflate Z len eof' (snd fill, snd st))"

text \<open>
  Nothing in the code bounds the number of passes, so the loop is given fuel: \<open>None\<close> is
  the loop still running when the fuel is used up.
\<close>

fun apkz_read_loop ::
  "nat \<Rightarrow> 'z zlib \<Rightarrow> nat \<Rightarrow> bool \<Rightarrow> 'z zstream \<times> byte list \<Rightarrow> ('z zstream \<times> byte list \<times> int) option" where
  "apkz_read_loop 0 Z len eof' st = None"
| "apkz_read_loop (Suc n) Z len eof' st =
     (case apkz_read_pass Z len eof' st of
        Inl res \<Rightarrow> Some res
      | Inr next \<Rightarrow> apkz_read_loop n Z len (fst next) (snd next))"

text \<open>
  \<open>apkz_read\<close> on the cookie, which is \<open>None\<close> for a null pointer. \<open>avail_out\<close> is an
  \<open>unsigned int\<close> of 32 bits, so the assignment of \<open>len\<close> truncates.
\<close>

definition apkz_read ::
  "nat \<Rightarrow> 'z zlib \<Rightarrow> 'z zstream option \<Rightarrow> nat \<Rightarrow> ('z zstream option \<times> byte list \<times> int) option" where
  "apkz_read fuel Z cookie len =
     (case cookie of
        None \<Rightarrow> Some (None, [], - 1)
      | Some zs \<Rightarrow>
          if eof zs then Some (Some zs, [], 0)
          else
            (case apkz_read_loop fuel Z len False (zs\<lparr>avail_out := len mod 2 ^ 32\<rparr>, []) of
               None \<Rightarrow> None
             | Some res \<Rightarrow> Some (Some (fst res), snd res)))"

text \<open>
  \<open>apkz_reset\<close>: the stream and the value returned. What is left in \<open>buf\<close> is kept, and
  \<open>inflateReset\<close> acts on the state of the decompressor only.
\<close>

definition apkz_reset :: "'z zlib \<Rightarrow> 'z zstream \<Rightarrow> 'z zstream \<times> int" where
  "apkz_reset Z zs0 =
     (let zs = zs0\<lparr>eof := False\<rparr>;
          rd = (if avail_in zs = 0 then read_fd zs else (1, zs));
          rr = fst rd
      in if avail_in zs = 0 \<and> rr \<le> 0 then (snd rd, if rr < 0 then - 1 else 0)
         else
           (let zs1 = (if avail_in zs = 0 then (snd rd)\<lparr>avail_in := nat rr, next_in := 0\<rparr> else zs)
            in (zs1\<lparr>zstate := z_reset Z (zstate zs1)\<rparr>, 1)))"

text \<open>
  A caller reading through the adapter: one \<open>apkz_read\<close> for each of the buffer sizes
  \<open>lens\<close>, in order.
\<close>

fun apkz_reads ::
  "nat \<Rightarrow> 'z zlib \<Rightarrow> nat list \<Rightarrow> 'z zstream option \<Rightarrow> 'z zstream option option" where
  "apkz_reads fuel Z [] cookie = Some cookie"
| "apkz_reads fuel Z (len # lens) cookie =
     (case apkz_read fuel Z cookie len of
        None \<Rightarrow> None
      | Some res \<Rightarrow> apkz_reads fuel Z lens (fst res))"

text \<open>
  A decompressor for runs of the adapter on concrete data: a segment of \<open>n\<close> stored bytes,
  the state being the number of bytes of the segment still to come.
\<close>

definition stored_zlib :: "nat \<Rightarrow> nat zlib" where
  "stored_zlib n =
     \<lparr>z_inflate = (\<lambda>z inp ao.
        (let k = min z (min (length inp) ao)
         in (if k = z then Z_STREAM_END else if k = 0 then Z_BUF_ERROR else Z_OK,
             k, take k inp, z - k))),
      z_reset = (\<lambda>z. n)\<rparr>"

text \<open>
  The raw bytes that the reads to come deliver, up to the first read that fails or
  reports the end of the file; and the raw input in front of the decompressor: what is
  left in \<open>buf\<close>, followed by what the file still delivers.
\<close>

fun fd_bytes :: "byte list option list \<Rightarrow> byte list" where
  "fd_bytes [] = []"
| "fd_bytes (None # fd') = []"
| "fd_bytes (Some bs # fd') = (if bs = [] then [] else take 65536 bs @ fd_bytes fd')"

definition raw_input :: "'z zstream \<Rightarrow> byte list" where
  "raw_input zs = take (avail_in zs) (drop (next_in zs) (buf zs)) @ fd_bytes (fd zs)"

text \<open>
  What zlib does on a well-formed segment. \<open>strm\<close> is the raw input from the start of the
  segment on, whose first \<open>n\<close> bytes are the segment (its compressed length is \<open>n\<close>) and
  decompress to \<open>m\<close> bytes; \<open>at z k j\<close> says that the decompressor in state \<open>z\<close> has consumed
  \<open>k\<close> bytes of \<open>strm\<close> and produced \<open>j\<close> bytes since the reset. Given the bytes that follow
  in \<open>strm\<close>, a call consumes no byte behind the end of the segment, reports the end marker
  exactly when it consumes the last byte of the segment, fails only when it consumed
  nothing, and makes progress when it has both input and room for output.
\<close>

definition zlib_segment :: "'z zlib \<Rightarrow> ('z \<Rightarrow> nat \<Rightarrow> nat \<Rightarrow> bool) \<Rightarrow> byte list \<Rightarrow> nat \<Rightarrow> nat \<Rightarrow> bool" where
  "zlib_segment Z at strm n m \<longleftrightarrow>
     (\<forall>z. at (z_reset Z z) 0 0) \<and>
     (\<forall>z k j inp ao. at z k j \<and> prefix inp (drop k strm) \<longrightarrow>
        (let res = z_inflate Z z inp ao; r = fst res; c = fst (snd res);
             out = fst (snd (snd res)); z' = snd (snd (snd res))
         in c \<le> length inp \<and> k + c \<le> n \<and> length out \<le> ao \<and> j + length out \<le> m \<and>
            at z' (k + c) (j + length out) \<and>
            (k + c = n \<longrightarrow> r = Z_STREAM_END) \<and>
            (k + c < n \<longrightarrow> r \<noteq> Z_STREAM_END \<and> (r = Z_OK \<or> c = 0) \<and>
               (inp \<noteq> [] \<and> 0 < ao \<longrightarrow> r = Z_OK \<and> (0 < c \<or> out \<noteq> [])))))"

text \<open>
  The bookkeeping of a run over the segment: the decompressor has consumed \<open>k\<close> bytes of
  \<open>strm\<close> and produced \<open>j\<close>, the raw input in front of it is the rest of \<open>strm\<close>, the input
  window lies in \<open>buf\<close>, and the callback has been given the first \<open>k\<close> bytes of \<open>strm\<close>.
\<close>

definition seg_inv ::
  "('z \<Rightarrow> nat \<Rightarrow> nat \<Rightarrow> bool) \<Rightarrow> byte list \<Rightarrow> nat \<Rightarrow> nat \<Rightarrow> nat \<Rightarrow> nat \<Rightarrow> 'z zstream \<Rightarrow> bool" where
  "seg_inv at strm n m k j zs \<longleftrightarrow>
     at (zstate zs) k j \<and> k \<le> n \<and> j \<le> m \<and> raw_input zs = drop k strm \<and>
     next_in zs + avail_in zs \<le> length (buf zs) \<and> readcb zs \<and>
     concat (map fst (readcb_calls zs)) = take k strm \<and>
     sum_list (map snd (readcb_calls zs)) = k"

text \<open>The room for output that a read with a buffer of \<open>len\<close> bytes offers.\<close>

definition room :: "nat \<Rightarrow> nat" where
  "room len = len mod 2 ^ 32"

subsection \<open>Vocabulary for the statements about the index dialect\<close>

text \<open>
  A raw line that \<open>apk_process_index\<close> takes as the field of letter \<open>c\<close>: after the cut of
  the newline it has at least two characters, the second being \<open>:\<close>, and starts with \<open>c\<close>.
\<close>

definition is_index_field :: "char \<Rightarrow> string \<Rightarrow> bool" where
  "is_index_field c raw \<longleftrightarrow>
     2 \<le> length (chomp raw) \<and> chomp raw ! 1 = CHR '':'' \<and> hd (chomp raw) = c"

text \<open>
  A record has the self-provides when it has a name and a version and its provides list
  holds the relation \<open>name = version\<close>.
\<close>

definition self_provides :: "solvable \<Rightarrow> bool" where
  "self_provides s \<longleftrightarrow>
     name s \<noteq> ID_NULL \<and> evr s \<noteq> ID_NULL \<and> pool_rel2id (name s) (evr s) REL_EQ \<in> set (provides s)"

text \<open>
  The repository \<open>r\<close> has grown from \<open>r0\<close> by records that all have the self-provides.
\<close>

definition news_ok :: "repo \<Rightarrow> repo \<Rightarrow> bool" where
  "news_ok r0 r \<longleftrightarrow> (\<exists>new. solvables r = solvables r0 @ new \<and> (\<forall>s\<in>set new. self_provides s))"

text \<open>
  States of the loop of \<open>apk_process_index\<close> inside a block that started on the repository
  \<open>r\<close>: \<open>nameless\<close>, when no record is open or the open record has no name and only its own
  attributes have been written; \<open>index_open\<close>, when a record is open, \<open>haveorigin\<close> is set and
  the source-name attribute of the record is \<open>v\<close>.
\<close>

definition nameless :: "repo \<Rightarrow> repo \<times> solvable option \<times> bool \<Rightarrow> bool" where
  "nameless r st \<longleftrightarrow>
     (fst (snd st) = None \<and> fst st = r) \<or>
     (\<exists>s. fst (snd st) = Some s \<and> name s = ID_NULL \<and> solvables (fst st) = solvables r \<and>
          errors (fst st) = errors r \<and>
          repo_free_solvable (length (solvables r)) (fst st) = repo_free_solvable (length (solvables r)) r)"

definition index_open :: "repo \<Rightarrow> attrval \<Rightarrow> repo \<times> solvable option \<times> bool \<Rightarrow> bool" where
  "index_open r v st \<longleftrightarrow>
     fst (snd st) \<noteq> None \<and> solvables (fst st) = solvables r \<and>
     attrs (fst st) (length (solvables r), SOLVABLE_SOURCENAME) = Some v \<and> snd (snd st)"

section \<open>Properties of the checksum-string decoder\<close>

lemma div4_step: "i mod 4 = 3 \<Longrightarrow> Suc i div 4 = Suc (i div 4)" for i :: nat
  by presburger

lemma div4_stay: "i mod 4 \<noteq> 3 \<Longrightarrow> Suc i div 4 = i div 4" for i :: nat
  by presburger

text \<open>
  Every fourth character stores three bytes, but for the one at \<open>xpos\<close>, which stores two:
  a lower bound on the number of bytes the loop leaves in \<open>chksum\<close>.
\<close>

lemma hdrid_loop_length:
  "hdrid_loop xpos i cs v out = Some r \<Longrightarrow>
   length out + 3 * ((i + length cs) div 4 - i div 4) \<le> length r + (if i \<le> xpos then 1 else 0)"
proof (induction xpos i cs v out rule: hdrid_loop.induct)
  case (1 xpos i v out)
  then show ?case by simp
next
  case (2 xpos i c cs v out)
  from "2.prems" obtain x where x: "hdrid_digit xpos i c = Some x"
    by (auto split: option.splits)
  have mono: "Suc i div 4 \<le> (Suc i + length cs) div 4"
    by (rule div_le_mono) simp
  show ?case
  proof (cases "i mod 4 = 3")
    case True
    let ?out = "out @ [of_nat (drop_bit 16 (or (push_bit 6 v) x)), of_nat (drop_bit 8 (or (push_bit 6 v) x))]
                    @ (if i \<noteq> xpos then [of_nat (or (push_bit 6 v) x)] else [])"
    from "2.prems" x True have "hdrid_loop xpos (Suc i) cs 0 ?out = Some r"
      by (simp add: Let_def)
    from "2.IH"(1) [OF x refl True this]
    have ih: "length ?out + 3 * ((Suc i + length cs) div 4 - Suc i div 4)
                \<le> length r + (if Suc i \<le> xpos then 1 else 0)" .
    have cnt: "(i + length (c # cs)) div 4 - i div 4 = Suc ((Suc i + length cs) div 4 - Suc i div 4)"
    proof -
      have "\<And>a b :: nat. Suc a \<le> b \<Longrightarrow> b - a = Suc (b - Suc a)" by arith
      from this [of "i div 4" "(Suc i + length cs) div 4"] mono div4_step [OF True]
      show ?thesis by simp
    qed
    show ?thesis
      unfolding cnt using ih by (simp split: if_splits)
  next
    case False
    from "2.prems" x False have "hdrid_loop xpos (Suc i) cs (or (push_bit 6 v) x) out = Some r"
      by (simp add: Let_def)
    from "2.IH"(2) [OF x refl False this]
    have ih: "length out + 3 * ((Suc i + length cs) div 4 - Suc i div 4)
                \<le> length r + (if Suc i \<le> xpos then 1 else 0)" .
    have cnt: "(i + length (c # cs)) div 4 - i div 4 = (Suc i + length cs) div 4 - Suc i div 4"
      using div4_stay [OF False] by simp
    show ?thesis
      unfolding cnt using ih by (simp split: if_splits)
  qed
qed

text \<open>
  C1, as the code has it. The claim fails on the code: a token that begins with \<open>Q1\<close> and
  is 46 characters long passes the length test \<open>l == 30 || l == 46\<close> and is written as a
  SHA-256 checksum.
\<close>

theorem apk_add_hdrid_Q1_46_counterexample:
  "length ''Q1AAAAAAAAAAAAAAAAAAAAAAAAAAAAAAAAAAAAAAAAAAAA'' = 46 \<and>
   apk_add_hdrid ''Q1AAAAAAAAAAAAAAAAAAAAAAAAAAAAAAAAAAAAAAAAAAAA'' =
     Some (REPOKEY_TYPE_SHA256,
       [0, 0, 0, 0, 0, 0, 0, 0, 0, 0, 0, 0, 0, 0, 0, 0, 0, 0, 0, 0, 0, 0, 0, 0, 0, 0, 0, 0, 0, 0, 0, 0])"
  by (simp add: apk_add_hdrid_def cchar_def hdrid_digit_def)

text \<open>
  C1, amended: a token whose total length is neither 30 nor 46 is never written; and, the
  46-character tokens with \<open>2\<close> in second place and a first character other than \<open>Q\<close>
  apart, a token is written only if it begins with \<open>Q1\<close> and is 30 characters long (as a
  20-byte SHA-1 digest), or begins with \<open>Q1\<close> and is 46 characters long (as a 32-byte SHA-256
  digest), or begins with \<open>Q2\<close> and is 46 characters long (as a 32-byte SHA-256 digest).
\<close>

theorem apk_add_hdrid_shape:
  "(length idstr \<noteq> 30 \<and> length idstr \<noteq> 46 \<longrightarrow> apk_add_hdrid idstr = None) \<and>
   (cchar idstr 0 = CHR ''Q'' \<or> \<not> (cchar idstr 1 = CHR ''2'' \<and> length idstr = 46) \<longrightarrow>
    apk_add_hdrid idstr = Some (ty, bs) \<longrightarrow>
      (take 2 idstr = ''Q1'' \<and> length idstr = 30 \<and> ty = REPOKEY_TYPE_SHA1 \<and> length bs = 20) \<or>
      (take 2 idstr = ''Q1'' \<and> length idstr = 46 \<and> ty = REPOKEY_TYPE_SHA256 \<and> length bs = 32) \<or>
      (take 2 idstr = ''Q2'' \<and> length idstr = 46 \<and> ty = REPOKEY_TYPE_SHA256 \<and> length bs = 32))"
proof (intro conjI impI)
  assume "length idstr \<noteq> 30 \<and> length idstr \<noteq> 46"
  then show "apk_add_hdrid idstr = None"
    by (simp add: apk_add_hdrid_def)
next
  assume q: "cchar idstr 0 = CHR ''Q'' \<or> \<not> (cchar idstr 1 = CHR ''2'' \<and> length idstr = 46)"
    and w: "apk_add_hdrid idstr = Some (ty, bs)"
  let ?l = "length idstr"
  from w have guard0: "((?l = 30 \<or> ?l = 46) \<and> cchar idstr 0 = CHR ''Q'' \<and> cchar idstr 1 = CHR ''1'')
      \<or> (cchar idstr 1 = CHR ''2'' \<and> ?l = 46)"
    by (auto simp: apk_add_hdrid_def Let_def split: if_splits)
  with q have q0: "cchar idstr 0 = CHR ''Q''"
    and guard: "((?l = 30 \<or> ?l = 46) \<and> cchar idstr 1 = CHR ''1'') \<or> (cchar idstr 1 = CHR ''2'' \<and> ?l = 46)"
    by auto
  from guard have len: "?l = 30 \<or> ?l = 46" by auto
  have t2: "take 2 idstr = [cchar idstr 0, cchar idstr 1]"
    using len by (cases idstr; cases "tl idstr") (auto simp: cchar_def)
  obtain chksum where loop:
    "hdrid_loop (if cchar idstr 1 = CHR ''2'' then 43 else 27) 0 (drop 2 idstr) 0 [] = Some chksum"
    and ty: "ty = (if ?l - 2 = 28 then REPOKEY_TYPE_SHA1 else REPOKEY_TYPE_SHA256)"
    and bs: "bs = take (solv_chksum_len ty) chksum"
    using w guard0 by (auto simp: apk_add_hdrid_def Let_def split: if_splits option.splits)
  from hdrid_loop_length [OF loop]
  have "3 * ((?l - 2) div 4) \<le> length chksum + 1"
    by (simp split: if_splits)
  with len ty bs have "length bs = solv_chksum_len ty"
    by auto
  with guard q0 t2 ty len
  show "(take 2 idstr = ''Q1'' \<and> length idstr = 30 \<and> ty = REPOKEY_TYPE_SHA1 \<and> length bs = 20) \<or>
      (take 2 idstr = ''Q1'' \<and> length idstr = 46 \<and> ty = REPOKEY_TYPE_SHA256 \<and> length bs = 32) \<or>
      (take 2 idstr = ''Q2'' \<and> length idstr = 46 \<and> ty = REPOKEY_TYPE_SHA256 \<and> length bs = 32)"
    by auto
qed

theorem apk_add_hdrid_shape_witness:
  "cchar ''Q1ABCDEFGHIJKLMNOPQRSTUVWXYZa='' 0 = CHR ''Q'' \<and>
   apk_add_hdrid ''Q1ABCDEFGHIJKLMNOPQRSTUVWXYZa='' =
     Some (REPOKEY_TYPE_SHA1,
       [0, 16, 131, 16, 81, 135, 32, 146, 139, 48, 211, 143, 65, 20, 147, 81, 85, 151, 97, 150]) \<and>
   take 2 ''Q1ABCDEFGHIJKLMNOPQRSTUVWXYZa='' = ''Q1'' \<and>
   length ''Q1ABCDEFGHIJKLMNOPQRSTUVWXYZa='' = 30 \<and>
   apk_add_hdrid ''Q1ABCDEFGHIJKLMNOPQRSTUVWXYZa'' = None \<and>
   apk_add_hdrid ''X1ABCDEFGHIJKLMNOPQRSTUVWXYZa='' = None"
  using apk_add_hdrid_shape [of "''Q1ABCDEFGHIJKLMNOPQRSTUVWXYZa=''" REPOKEY_TYPE_SHA1
      "[0, 16, 131, 16, 81, 135, 32, 146, 139, 48, 211, 143, 65, 20, 147, 81, 85, 151, 97, 150]"]
    apk_add_hdrid_shape [of "''Q1ABCDEFGHIJKLMNOPQRSTUVWXYZa''"]
    apk_add_hdrid_shape [of "''X1ABCDEFGHIJKLMNOPQRSTUVWXYZa=''"]
  by (simp add: apk_add_hdrid_def cchar_def hdrid_digit_def)

section \<open>Properties of the dependency expression parser\<close>

declare add_deps_loop.simps [simp del]

text \<open>
  C6: the line \<open>foo>=1.2 bar baz<3\<close> of kind require adds the three relations to the
  requires list, in this order; with a leading \<open>!\<close> the first atom goes to the conflicts list
  and the other two to the requires list.
\<close>

theorem add_deps_example:
  "add_deps s SOLVABLE_REQUIRES ''foo>=1.2 bar baz<3'' =
     s\<lparr>requires := requires s @
        [pool_rel2id (pool_str2id ''foo'') (pool_str2id ''1.2'') (or REL_GT REL_EQ),
         pool_str2id ''bar'',
         pool_rel2id (pool_str2id ''baz'') (pool_str2id ''3'') REL_LT]\<rparr> \<and>
   add_deps s SOLVABLE_REQUIRES ''!foo>=1.2 bar baz<3'' =
     s\<lparr>requires := requires s @
        [pool_str2id ''bar'',
         pool_rel2id (pool_str2id ''baz'') (pool_str2id ''3'') REL_LT],
       conflicts := conflicts s @
        [pool_rel2id (pool_str2id ''foo'') (pool_str2id ''1.2'') (or REL_GT REL_EQ)]\<rparr>"
  by (simp add: add_deps_def add_deps_atom_def add_deps_store_def is_blank_def is_name_end_def
      REL_GT_def REL_EQ_def REL_LT_def pool_strn2id_def pool_str2id_def pool_rel2id_def
      repo_addid_dep_def add_deps_loop.simps)

text \<open>
  C3 fails on the code for an atom written with \<open>~\<close>: the version of \<open>foo~1.2\<close> is \<open>~1.2\<close>.
\<close>

theorem add_deps_tilde_counterexample:
  "requires (add_deps new_solvable SOLVABLE_REQUIRES ''foo~1.2'') =
     [pool_rel2id (pool_str2id ''foo'') (pool_str2id ''~1.2'') REL_EQ] \<and>
   pool_str2id ''~1.2'' \<noteq> pool_str2id ''1.2''"
  by (simp add: add_deps_def add_deps_atom_def add_deps_store_def is_blank_def is_name_end_def
      REL_GT_def REL_EQ_def REL_LT_def pool_strn2id_def pool_str2id_def pool_rel2id_def
      repo_addid_dep_def add_deps_loop.simps new_solvable_def)

lemma takeWhile_stop: "ys = [] \<or> \<not> P (hd ys) \<Longrightarrow> takeWhile P ys = []"
  by (cases ys) auto

lemma dropWhile_stop: "ys = [] \<or> \<not> P (hd ys) \<Longrightarrow> dropWhile P ys = ys"
  by (cases ys) auto

lemma takeWhile_run:
  "\<forall>x\<in>set xs. P x \<Longrightarrow> ys = [] \<or> \<not> P (hd ys) \<Longrightarrow> takeWhile P (xs @ ys) = xs"
  by (simp add: takeWhile_append2 takeWhile_stop)

lemma dropWhile_run:
  "\<forall>x\<in>set xs. P x \<Longrightarrow> ys = [] \<or> \<not> P (hd ys) \<Longrightarrow> dropWhile P (xs @ ys) = ys"
  by (simp add: dropWhile_append2 dropWhile_stop)

lemma scan_ops_run:
  "set ops \<subseteq> {CHR ''<'', CHR ''>'', CHR ''=''} \<Longrightarrow>
   ys = [] \<or> hd ys \<notin> {CHR ''<'', CHR ''>'', CHR ''=''} \<Longrightarrow>
   scan_ops (ops @ ys) flags = (ys, snd (scan_ops ops flags))"
proof (induction ops arbitrary: flags)
  case Nil
  then show ?case by (cases ys) auto
next
  case (Cons c ops)
  then show ?case by auto
qed

lemma or_flag_pos: "0 < b \<Longrightarrow> 0 < or a b" for a b :: nat
  using or_eq_0_iff [of a b] by simp

lemma or_flag_pos': "0 < a \<Longrightarrow> 0 < or a b" for a b :: nat
  using or_eq_0_iff [of a b] by simp

lemma scan_ops_nonzero: "0 < flags \<Longrightarrow> 0 < snd (scan_ops p flags)"
  by (induction p flags rule: scan_ops.induct) (auto simp: or_flag_pos')

lemma scan_ops_nonzero_run:
  "ops \<noteq> [] \<Longrightarrow> set ops \<subseteq> {CHR ''<'', CHR ''>'', CHR ''=''} \<Longrightarrow> snd (scan_ops ops flags) \<noteq> 0"
  by (cases ops) (auto intro!: scan_ops_nonzero or_flag_pos simp: REL_LT_def REL_GT_def REL_EQ_def)

lemma add_deps_atom_stages:
  assumes "dropWhile is_blank p0 = p1"
    and "(oldwhat = SOLVABLE_REQUIRES \<and> p1 \<noteq> [] \<and> hd p1 = CHR ''!'') = bang"
    and "(if bang then tl p1 else p1) = p2"
    and "takeWhile (\<lambda>c. \<not> is_name_end c) p2 = pn"
    and "dropWhile (\<lambda>c. \<not> is_name_end c) p2 = p3"
    and "scan_ops p3 0 = (p4, flags0)"
    and "(if p4 \<noteq> [] \<and> hd p4 = CHR ''~'' then or flags0 REL_EQ else flags0) = flags"
  shows "add_deps_atom oldwhat p0 =
           (if flags \<noteq> 0
            then (if bang then SOLVABLE_CONFLICTS else oldwhat,
                  pool_rel2id (pool_strn2id pn) (pool_strn2id (takeWhile (\<lambda>c. \<not> is_blank c) p4)) flags,
                  dropWhile (\<lambda>c. \<not> is_blank c) p4)
            else (if bang then SOLVABLE_CONFLICTS else oldwhat, pool_strn2id pn, p4))"
  unfolding add_deps_atom_def Let_def assms prod.case ..

text \<open>
  C3, amended: when the name \<open>nm\<close> of an atom is followed by a run \<open>ops\<close> of the characters
  \<open><\<close>, \<open>>\<close>, \<open>=\<close> or by a \<open>~\<close>, the atom is the compound relation whose version is the
  text \<open>ver\<close> that follows the run of \<open><\<close>, \<open>>\<close>, \<open>=\<close> up to the next blank or the end of
  the line. A \<open>~\<close> is not taken as an operator character: it sets the flag \<open>REL_EQ\<close> and
  stays the first character of the version, so \<open>name~ver\<close> has the flag \<open>REL_EQ\<close> and the
  version \<open>~ver\<close>.
\<close>

theorem add_deps_atom_compound:
  assumes nm: "\<forall>c\<in>set nm. \<not> is_name_end c"
    and nobang: "oldwhat = SOLVABLE_REQUIRES \<longrightarrow> nm = [] \<or> hd nm \<noteq> CHR ''!''"
    and ops: "set ops \<subseteq> {CHR ''<'', CHR ''>'', CHR ''=''}"
    and ver: "\<forall>c\<in>set ver. \<not> is_blank c"
    and ver_hd: "ver = [] \<or> hd ver \<notin> {CHR ''<'', CHR ''>'', CHR ''=''}"
    and cmp: "ops \<noteq> [] \<or> (ver \<noteq> [] \<and> hd ver = CHR ''~'')"
    and rest: "rest = [] \<or> is_blank (hd rest)"
  shows "add_deps_atom oldwhat (nm @ ops @ ver @ rest) =
           (oldwhat,
            pool_rel2id (pool_strn2id nm) (pool_strn2id ver)
              (if ver \<noteq> [] \<and> hd ver = CHR ''~'' then or (snd (scan_ops ops 0)) REL_EQ
               else snd (scan_ops ops 0)),
            rest)"
proof -
  define p where "p = nm @ ops @ ver @ rest"
  define q where "q = ops @ ver @ rest"
  define f where "f = snd (scan_ops ops 0)"
  have q_ne: "q \<noteq> []" and q_hd: "is_name_end (hd q)" and q_hd': "\<not> is_blank (hd q)" "hd q \<noteq> CHR ''!''"
    using cmp ops by (cases ops; auto simp: q_def is_name_end_def is_blank_def)+
  have p_ne: "p \<noteq> []" using q_ne by (simp add: p_def q_def)
  have p_hd: "\<not> is_blank (hd p)"
    using nm q_hd' q_ne by (cases nm) (auto simp: p_def q_def is_name_end_def is_blank_def)
  have e1: "dropWhile is_blank p = p"
    using p_hd by (simp add: dropWhile_stop)
  have e2: "\<not> (oldwhat = SOLVABLE_REQUIRES \<and> p \<noteq> [] \<and> hd p = CHR ''!'')"
    using nobang q_hd' q_ne by (cases nm) (auto simp: p_def q_def)
  have e3: "takeWhile (\<lambda>c. \<not> is_name_end c) p = nm" "dropWhile (\<lambda>c. \<not> is_name_end c) p = q"
    unfolding p_def q_def [symmetric]
    using takeWhile_run [of nm "\<lambda>c. \<not> is_name_end c" q] dropWhile_run [of nm "\<lambda>c. \<not> is_name_end c" q]
      nm q_hd by simp_all
  have vr: "ver @ rest = [] \<or> hd (ver @ rest) \<notin> {CHR ''<'', CHR ''>'', CHR ''=''}"
    using ver_hd rest by (cases ver) (auto simp: is_blank_def)
  have e4: "scan_ops q 0 = (ver @ rest, f)"
    unfolding q_def f_def using scan_ops_run [OF ops vr] by simp
  have e5: "(ver @ rest \<noteq> [] \<and> hd (ver @ rest) = CHR ''~'') = (ver \<noteq> [] \<and> hd ver = CHR ''~'')"
    using rest by (cases ver) (auto simp: is_blank_def)
  define flags where "flags = (if ver \<noteq> [] \<and> hd ver = CHR ''~'' then or f REL_EQ else f)"
  have e6: "flags \<noteq> 0"
    using cmp scan_ops_nonzero_run [OF _ ops, of 0]
    by (auto simp: flags_def f_def REL_EQ_def intro!: or_flag_pos)
  have e7: "takeWhile (\<lambda>c. \<not> is_blank c) (ver @ rest) = ver"
    "dropWhile (\<lambda>c. \<not> is_blank c) (ver @ rest) = rest"
    using takeWhile_run [of ver "\<lambda>c. \<not> is_blank c" rest] dropWhile_run [of ver "\<lambda>c. \<not> is_blank c" rest]
      ver rest by simp_all
  have e2': "(oldwhat = SOLVABLE_REQUIRES \<and> p \<noteq> [] \<and> hd p = CHR ''!'') = False"
    using e2 by simp
  have e5': "(if ver @ rest \<noteq> [] \<and> hd (ver @ rest) = CHR ''~'' then or f REL_EQ else f) = flags"
    unfolding e5 flags_def ..
  have "add_deps_atom oldwhat p = (oldwhat, pool_rel2id (pool_strn2id nm) (pool_strn2id ver) flags, rest)"
    using add_deps_atom_stages [OF e1 e2' if_False e3 e4 e5'] e6 by (simp add: e7)
  then show ?thesis by (simp add: p_def flags_def f_def)
qed


lemma while_append_stop:
  "ys \<noteq> [] \<Longrightarrow> \<not> P (hd ys) \<Longrightarrow>
   takeWhile P (xs @ ys) = takeWhile P xs \<and> dropWhile P (xs @ ys) = dropWhile P xs @ ys"
  by (induction xs) (auto simp: takeWhile_stop dropWhile_stop)

lemma scan_ops_append_stop:
  "ys \<noteq> [] \<Longrightarrow> hd ys \<notin> {CHR ''<'', CHR ''>'', CHR ''=''} \<Longrightarrow>
   scan_ops (xs @ ys) flags = (fst (scan_ops xs flags) @ ys, snd (scan_ops xs flags))"
proof (induction xs arbitrary: flags)
  case Nil
  then show ?case by (cases ys) auto
next
  case (Cons c xs)
  then show ?case by auto
qed

lemma scan_ops_suffix: "suffix (fst (scan_ops p flags)) p"
  by (induction p flags rule: scan_ops.induct) (auto intro: suffix_ConsI)

lemma add_deps_atom_unfold:
  "add_deps_atom oldwhat p0 =
    (let p1 = dropWhile is_blank p0;
         bang = (oldwhat = SOLVABLE_REQUIRES \<and> p1 \<noteq> [] \<and> hd p1 = CHR ''!'');
         p2 = (if bang then tl p1 else p1);
         p3 = dropWhile (\<lambda>c. \<not> is_name_end c) p2;
         p4 = fst (scan_ops p3 0);
         flags = (if p4 \<noteq> [] \<and> hd p4 = CHR ''~'' then or (snd (scan_ops p3 0)) REL_EQ
                  else snd (scan_ops p3 0))
     in if flags \<noteq> 0
        then (if bang then SOLVABLE_CONFLICTS else oldwhat,
              pool_rel2id (pool_strn2id (takeWhile (\<lambda>c. \<not> is_name_end c) p2))
                (pool_strn2id (takeWhile (\<lambda>c. \<not> is_blank c) p4)) flags,
              dropWhile (\<lambda>c. \<not> is_blank c) p4)
        else (if bang then SOLVABLE_CONFLICTS else oldwhat,
              pool_strn2id (takeWhile (\<lambda>c. \<not> is_name_end c) p2), p4))"
  unfolding Let_def
  by (rule add_deps_atom_stages [OF refl refl refl refl refl _ refl]) simp

lemma add_deps_atom_suffix: "suffix (snd (snd (add_deps_atom oldwhat p))) p"
proof -
  define p1 where "p1 = dropWhile is_blank p"
  define p2 where "p2 = (if oldwhat = SOLVABLE_REQUIRES \<and> p1 \<noteq> [] \<and> hd p1 = CHR ''!'' then tl p1 else p1)"
  define p3 where "p3 = dropWhile (\<lambda>c. \<not> is_name_end c) p2"
  define p4 where "p4 = fst (scan_ops p3 0)"
  define p5 where "p5 = dropWhile (\<lambda>c. \<not> is_blank c) p4"
  have "suffix p1 p" by (simp add: p1_def suffix_dropWhile)
  moreover have "suffix p2 p1" by (simp add: p2_def suffix_tl)
  moreover have "suffix p3 p2" by (simp add: p3_def suffix_dropWhile)
  moreover have "suffix p4 p3" by (simp add: p4_def scan_ops_suffix)
  moreover have "suffix p5 p4" by (simp add: p5_def suffix_dropWhile)
  ultimately have "suffix p4 p" "suffix p5 p"
    by (meson suffix_order.trans)+
  moreover have "snd (snd (add_deps_atom oldwhat p)) = p4 \<or> snd (snd (add_deps_atom oldwhat p)) = p5"
    unfolding p5_def p4_def p3_def p2_def p1_def
    by (simp add: add_deps_atom_stages [OF refl refl refl refl refl prod.collapse [symmetric] refl])
  ultimately show ?thesis by auto
qed

lemma add_deps_atom_blank_only:
  assumes "\<forall>c\<in>set ws. is_blank c"
  shows "add_deps_atom oldwhat ws = (oldwhat, pool_strn2id [], [])"
proof -
  have d: "dropWhile is_blank ws = []" using assms by simp
  show ?thesis
    using add_deps_atom_stages [of ws "[]" oldwhat False "[]" "[]" "[]" "[]" 0 0, OF d]
    by simp
qed

lemma add_deps_atom_append_blank:
  assumes p: "p \<noteq> []" "\<not> is_blank (last p)" and ws: "ws \<noteq> []" "is_blank (hd ws)"
  shows "add_deps_atom oldwhat (p @ ws) =
           (fst (add_deps_atom oldwhat p), fst (snd (add_deps_atom oldwhat p)),
            snd (snd (add_deps_atom oldwhat p)) @ ws)"
proof -
  define p1 where "p1 = dropWhile is_blank p"
  define bang where "bang \<longleftrightarrow> oldwhat = SOLVABLE_REQUIRES \<and> p1 \<noteq> [] \<and> hd p1 = CHR ''!''"
  define p2 where "p2 = (if bang then tl p1 else p1)"
  define pn where "pn = takeWhile (\<lambda>c. \<not> is_name_end c) p2"
  define p3 where "p3 = dropWhile (\<lambda>c. \<not> is_name_end c) p2"
  define p4 where "p4 = fst (scan_ops p3 0)"
  define flags0 where "flags0 = snd (scan_ops p3 0)"
  define flags where "flags = (if p4 \<noteq> [] \<and> hd p4 = CHR ''~'' then or flags0 REL_EQ else flags0)"
  have ws_hd: "\<not> \<not> is_name_end (hd ws)" "hd ws \<notin> {CHR ''<'', CHR ''>'', CHR ''=''}"
    "hd ws \<noteq> CHR ''~''" "\<not> \<not> is_blank (hd ws)" "hd ws \<noteq> CHR ''!''"
    using ws(2) by (auto simp: is_blank_def is_name_end_def)
  have "last p \<in> set p" using p(1) by simp
  then have d1: "dropWhile is_blank (p @ ws) = p1 @ ws" and p1_ne: "p1 \<noteq> []"
    using p(2) by (auto simp: p1_def dropWhile_append1 dropWhile_eq_Nil_conv)
  have b: "(oldwhat = SOLVABLE_REQUIRES \<and> p1 @ ws \<noteq> [] \<and> hd (p1 @ ws) = CHR ''!'') = bang"
    using p1_ne by (simp add: bang_def)
  have d2: "(if bang then tl (p1 @ ws) else p1 @ ws) = p2 @ ws"
    using p1_ne by (simp add: p2_def)
  have d3: "takeWhile (\<lambda>c. \<not> is_name_end c) (p2 @ ws) = pn"
    "dropWhile (\<lambda>c. \<not> is_name_end c) (p2 @ ws) = p3 @ ws"
    using while_append_stop [of ws "\<lambda>c. \<not> is_name_end c" p2] ws(1) ws_hd(1)
    by (simp_all add: pn_def p3_def)
  have d4: "scan_ops (p3 @ ws) 0 = (p4 @ ws, flags0)"
    using scan_ops_append_stop [OF ws(1) ws_hd(2), of p3 0] by (simp add: p4_def flags0_def)
  have d5: "(if p4 @ ws \<noteq> [] \<and> hd (p4 @ ws) = CHR ''~'' then or flags0 REL_EQ else flags0) = flags"
    using ws(1) ws_hd(3) by (cases p4) (auto simp: flags_def)
  have d6: "takeWhile (\<lambda>c. \<not> is_blank c) (p4 @ ws) = takeWhile (\<lambda>c. \<not> is_blank c) p4"
    "dropWhile (\<lambda>c. \<not> is_blank c) (p4 @ ws) = dropWhile (\<lambda>c. \<not> is_blank c) p4 @ ws"
    using while_append_stop [of ws "\<lambda>c. \<not> is_blank c" p4] ws(1) ws_hd(4) by simp_all
  have e4: "scan_ops p3 0 = (p4, flags0)" by (simp add: p4_def flags0_def)
  show ?thesis
    unfolding add_deps_atom_stages [OF d1 b d2 d3 d4 d5] d6
      add_deps_atom_stages [OF p1_def [symmetric] bang_def [symmetric] p2_def [symmetric]
        pn_def [symmetric] p3_def [symmetric] e4 flags_def [symmetric]]
    by simp
qed

lemma add_deps_loop_Nil: "add_deps_loop oldwhat [] st = st"
  by (simp add: add_deps_loop.simps)

lemma add_deps_loop_step:
  "p \<noteq> [] \<Longrightarrow> add_deps_loop oldwhat p st =
     add_deps_loop oldwhat (snd (snd (add_deps_atom oldwhat p)))
       (add_deps_store (fst (add_deps_atom oldwhat p)) (fst (snd (add_deps_atom oldwhat p))) st)"
  by (subst add_deps_loop.simps) (simp add: split_beta)

lemma add_deps_loop_trailing:
  assumes ws: "ws \<noteq> []" "\<forall>c\<in>set ws. is_blank c"
  shows "p = [] \<or> \<not> is_blank (last p) \<Longrightarrow>
         add_deps_loop oldwhat (p @ ws) st =
           add_deps_store oldwhat (pool_strn2id []) (add_deps_loop oldwhat p st)"
proof (induction oldwhat p st rule: add_deps_loop.induct)
  case (1 oldwhat p st)
  show ?case
  proof (cases "p = []")
    case True
    then show ?thesis
      using ws by (simp add: add_deps_loop_step add_deps_atom_blank_only add_deps_loop_Nil)
  next
    case False
    with "1.prems" have nb: "\<not> is_blank (last p)" by simp
    from ws have hd: "is_blank (hd ws)" by (cases ws) auto
    define r where "r = snd (snd (add_deps_atom oldwhat p))"
    have "suffix r p" by (simp add: r_def add_deps_atom_suffix)
    then have r: "r = [] \<or> \<not> is_blank (last r)"
      using nb by (auto simp: suffix_def)
    from "1.IH" [OF False prod.collapse prod.collapse] r
    show ?thesis
      using False ws(1)
      by (simp add: add_deps_loop_step [of p] add_deps_loop_step [of "p @ ws"]
          add_deps_atom_append_blank [OF False nb ws(1) hd] r_def)
  qed
qed


lemma add_deps_atom_what:
  "fst (add_deps_atom oldwhat p) = oldwhat \<or>
   (oldwhat = SOLVABLE_REQUIRES \<and> fst (add_deps_atom oldwhat p) = SOLVABLE_CONFLICTS)"
  by (simp add: add_deps_atom_stages [OF refl refl refl refl refl prod.collapse [symmetric] refl])

lemma add_deps_store_name: "name (fst (add_deps_store what id' st)) = name (fst st)"
  by (simp add: add_deps_store_def Let_def)

lemma add_deps_loop_name: "name (fst (add_deps_loop oldwhat p st)) = name (fst st)"
proof (induction oldwhat p st rule: add_deps_loop.induct)
  case (1 oldwhat p st)
  show ?case
  proof (cases "p = []")
    case True
    then show ?thesis by (simp add: add_deps_loop_Nil)
  next
    case False
    from "1.IH" [OF False prod.collapse prod.collapse] False
    show ?thesis by (simp add: add_deps_loop_step add_deps_store_name)
  qed
qed

lemma add_deps_name: "name (add_deps s what p) = name s"
  using add_deps_loop_name [of what p "(s, ID_NULL)"]
  by (simp add: add_deps_def split_beta)

lemma add_deps_loop_supplements:
  "oldwhat \<noteq> SOLVABLE_SUPPLEMENTS \<Longrightarrow> snd (add_deps_loop oldwhat p st) = snd st"
proof (induction oldwhat p st rule: add_deps_loop.induct)
  case (1 oldwhat p st)
  show ?case
  proof (cases "p = []")
    case True
    then show ?thesis by (simp add: add_deps_loop_Nil)
  next
    case False
    from add_deps_atom_what [of oldwhat p] "1.prems"
    have "fst (add_deps_atom oldwhat p) \<noteq> SOLVABLE_SUPPLEMENTS" by auto
    then have "snd (add_deps_store (fst (add_deps_atom oldwhat p)) (fst (snd (add_deps_atom oldwhat p))) st) = snd st"
      by (simp add: add_deps_store_def Let_def)
    with "1.IH" [OF False prod.collapse prod.collapse "1.prems"] False
    show ?thesis by (simp add: add_deps_loop_step)
  qed
qed

lemma add_deps_loop_solvable:
  "fst (add_deps_loop SOLVABLE_SUPPLEMENTS p st) = fst st"
proof (induction SOLVABLE_SUPPLEMENTS p st rule: add_deps_loop.induct)
  case (1 p st)
  show ?case
  proof (cases "p = []")
    case True
    then show ?thesis by (simp add: add_deps_loop_Nil)
  next
    case False
    from add_deps_atom_what [of SOLVABLE_SUPPLEMENTS p]
    have "fst (add_deps_atom SOLVABLE_SUPPLEMENTS p) = SOLVABLE_SUPPLEMENTS" by auto
    then have "fst (add_deps_store (fst (add_deps_atom SOLVABLE_SUPPLEMENTS p))
        (fst (snd (add_deps_atom SOLVABLE_SUPPLEMENTS p))) st) = fst st"
      by (simp add: add_deps_store_def Let_def)
    with "1.hyps" [OF False prod.collapse prod.collapse] False
    show ?thesis by (simp add: add_deps_loop_step)
  qed
qed

lemma add_deps_lists:
  "what \<noteq> SOLVABLE_SUPPLEMENTS \<Longrightarrow> add_deps s what p = fst (add_deps_loop what p (s, ID_NULL))"
  using add_deps_loop_supplements [of what p "(s, ID_NULL)"]
  by (simp add: add_deps_def split_beta)

text \<open>
  C10: a line that ends in blanks \<open>ws\<close> (spaces or tabs) after a part \<open>p\<close> that does not end
  in a blank is parsed as \<open>p\<close> is, followed by one more atom: the identifier of the empty
  string is added to the list the line is for, and for \<open>SOLVABLE_SUPPLEMENTS\<close> it is
  combined by \<open>REL_AND\<close> with the relation of the atoms of \<open>p\<close>, if there are any, into the
  one relation that is added.
\<close>

theorem add_deps_trailing_blank:
  assumes "ws \<noteq> []" and "\<forall>c\<in>set ws. is_blank c" and "p = [] \<or> \<not> is_blank (last p)"
  shows "add_deps s SOLVABLE_PROVIDES (p @ ws) =
           (add_deps s SOLVABLE_PROVIDES p)
             \<lparr>provides := repo_addid_dep (provides (add_deps s SOLVABLE_PROVIDES p)) ID_EMPTY\<rparr> \<and>
         add_deps s SOLVABLE_REQUIRES (p @ ws) =
           (add_deps s SOLVABLE_REQUIRES p)
             \<lparr>requires := repo_addid_dep (requires (add_deps s SOLVABLE_REQUIRES p)) ID_EMPTY\<rparr> \<and>
         add_deps s SOLVABLE_SUPPLEMENTS (p @ ws) =
           s\<lparr>supplements := repo_addid_dep (supplements s)
               (if snd (add_deps_loop SOLVABLE_SUPPLEMENTS p (s, ID_NULL)) \<noteq> ID_NULL
                then pool_rel2id ID_EMPTY (snd (add_deps_loop SOLVABLE_SUPPLEMENTS p (s, ID_NULL))) REL_AND
                else ID_EMPTY)\<rparr>"
proof -
  note tr = add_deps_loop_trailing [OF assms]
  have e: "pool_strn2id [] = ID_EMPTY" by (simp add: pool_strn2id_def ID_EMPTY_def)
  have 1: "add_deps s SOLVABLE_PROVIDES (p @ ws) =
           (add_deps s SOLVABLE_PROVIDES p)
             \<lparr>provides := repo_addid_dep (provides (add_deps s SOLVABLE_PROVIDES p)) ID_EMPTY\<rparr>"
    by (simp add: add_deps_lists tr e add_deps_store_def Let_def)
  have 2: "add_deps s SOLVABLE_REQUIRES (p @ ws) =
           (add_deps s SOLVABLE_REQUIRES p)
             \<lparr>requires := repo_addid_dep (requires (add_deps s SOLVABLE_REQUIRES p)) ID_EMPTY\<rparr>"
    by (simp add: add_deps_lists tr e add_deps_store_def Let_def)
  have ne: "ID_EMPTY \<noteq> ID_NULL" "\<And>a b c. pool_rel2id a b c \<noteq> ID_NULL"
    by (simp_all add: ID_EMPTY_def pool_rel2id_def)
  have 3: "add_deps s SOLVABLE_SUPPLEMENTS (p @ ws) =
           s\<lparr>supplements := repo_addid_dep (supplements s)
               (if snd (add_deps_loop SOLVABLE_SUPPLEMENTS p (s, ID_NULL)) \<noteq> ID_NULL
                then pool_rel2id ID_EMPTY (snd (add_deps_loop SOLVABLE_SUPPLEMENTS p (s, ID_NULL))) REL_AND
                else ID_EMPTY)\<rparr>"
    using add_deps_loop_solvable [of p "(s, ID_NULL)"]
    by (simp add: add_deps_def split_beta tr e add_deps_store_def Let_def ne)
  from 1 2 3 show ?thesis by simp
qed

theorem add_deps_trailing_blank_witness:
  "is_blank (CHR '' '') \<and> \<not> is_blank (last ''foo'') \<and>
   requires (add_deps new_solvable SOLVABLE_REQUIRES (''foo'' @ '' '')) = [pool_str2id ''foo'', ID_EMPTY] \<and>
   supplements (add_deps new_solvable SOLVABLE_SUPPLEMENTS (''foo'' @ '' '')) =
     [pool_rel2id ID_EMPTY (pool_str2id ''foo'') REL_AND]"
  using add_deps_trailing_blank [of "'' ''" "''foo''" new_solvable]
  by (simp add: add_deps_def add_deps_atom_def add_deps_store_def is_blank_def is_name_end_def
      REL_GT_def REL_EQ_def REL_LT_def pool_strn2id_def pool_str2id_def pool_rel2id_def
      repo_addid_dep_def new_solvable_def add_deps_loop.simps ID_EMPTY_def)

theorem add_deps_atom_compound_witness:
  "hd ''~1.2'' = CHR ''~'' \<and> is_blank (hd '' bar'') \<and>
   add_deps_atom SOLVABLE_REQUIRES (''foo'' @ [] @ ''~1.2'' @ '' bar'') =
     (SOLVABLE_REQUIRES, pool_rel2id (pool_strn2id ''foo'') (pool_strn2id ''~1.2'') REL_EQ, '' bar'')"
  using add_deps_atom_compound [of "''foo''" SOLVABLE_REQUIRES "[]" "''~1.2''" "'' bar''"]
  by (simp add: is_name_end_def is_blank_def)

section \<open>Properties of the stream adapter\<close>

lemma read_fd_keeps:
  "eof (snd (read_fd zs)) = eof zs" "readcb (snd (read_fd zs)) = readcb zs"
  "zstate (snd (read_fd zs)) = zstate zs"
  "readcb_calls (snd (read_fd zs)) = readcb_calls zs" "avail_out (snd (read_fd zs)) = avail_out zs"
  by (auto simp: read_fd_def split: list.splits option.splits)

lemma fd_bytes_head:
  "fd_bytes fd0 \<noteq> [] \<Longrightarrow> \<exists>bs fd'. fd0 = Some bs # fd' \<and> bs \<noteq> [] \<and> fd_bytes fd0 = take 65536 bs @ fd_bytes fd'"
  by (cases fd0 rule: fd_bytes.cases) (auto split: if_splits)

text \<open>While the segment has not been consumed, refilling the buffer keeps the raw input.\<close>

lemma seg_fill:
  assumes ri: "raw_input zs = drop k strm" and kl: "k < length strm"
    and win: "next_in zs + avail_in zs \<le> length (buf zs)"
  shows "0 < avail_in (snd (apkz_read_fill zs)) \<and>
       raw_input (snd (apkz_read_fill zs)) = raw_input zs \<and>
       next_in (snd (apkz_read_fill zs)) + avail_in (snd (apkz_read_fill zs))
           \<le> length (buf (snd (apkz_read_fill zs))) \<and>
       (\<forall>rr. fst (apkz_read_fill zs) = Some rr \<longrightarrow> 0 < rr)"
proof (cases "avail_in zs = 0")
  case False
  then show ?thesis
    using win by (simp add: apkz_read_fill_def)
next
  case True
  then have "fd_bytes (fd zs) = drop k strm" using ri by (simp add: raw_input_def)
  with kl have "fd_bytes (fd zs) \<noteq> []" by simp
  from fd_bytes_head [OF this] obtain bs fd' where
    fd: "fd zs = Some bs # fd'" and bs: "bs \<noteq> []"
    and fb: "fd_bytes (fd zs) = take 65536 bs @ fd_bytes fd'" by blast
  define tb where "tb = take 65536 bs"
  have rd: "read_fd zs = (int (length tb), zs\<lparr>fd := fd', buf := tb @ drop (length tb) (buf zs)\<rparr>)"
    by (simp add: read_fd_def fd tb_def)
  have pos: "0 < length tb" using bs by (cases bs) (simp_all add: tb_def)
  show ?thesis
    using True pos fb [folded tb_def]
    by (simp add: apkz_read_fill_def Let_def rd raw_input_def)
qed

lemma fill_keeps:
  "eof (snd (apkz_read_fill zs)) = eof zs" "readcb (snd (apkz_read_fill zs)) = readcb zs"
  "zstate (snd (apkz_read_fill zs)) = zstate zs"
  "readcb_calls (snd (apkz_read_fill zs)) = readcb_calls zs"
  "avail_out (snd (apkz_read_fill zs)) = avail_out zs"
  by (simp_all add: apkz_read_fill_def Let_def read_fd_keeps)

lemma take_drop_step:
  "c \<le> a \<Longrightarrow> take (a - c) (drop (p + c) xs) = drop c (take a (drop p xs))"
  by (simp add: drop_take add.commute)

lemma take_window: "c \<le> a \<Longrightarrow> take c (drop p xs) = take c (take a (drop p xs))"
  by (simp add: min_def)

lemma prefix_take_eq: "prefix xs ys \<Longrightarrow> c \<le> length xs \<Longrightarrow> take c xs = take c ys"
  by (auto simp: prefix_def)

lemma zlib_segment_call:
  assumes "zlib_segment Z at strm n m" and "at z k j" and "prefix inp (drop k strm)"
  shows "fst (snd (z_inflate Z z inp ao)) \<le> length inp \<and>
         k + fst (snd (z_inflate Z z inp ao)) \<le> n \<and>
         length (fst (snd (snd (z_inflate Z z inp ao)))) \<le> ao \<and>
         j + length (fst (snd (snd (z_inflate Z z inp ao)))) \<le> m \<and>
         at (snd (snd (snd (z_inflate Z z inp ao)))) (k + fst (snd (z_inflate Z z inp ao)))
            (j + length (fst (snd (snd (z_inflate Z z inp ao))))) \<and>
         (k + fst (snd (z_inflate Z z inp ao)) = n \<longrightarrow> fst (z_inflate Z z inp ao) = Z_STREAM_END) \<and>
         (k + fst (snd (z_inflate Z z inp ao)) < n \<longrightarrow>
            fst (z_inflate Z z inp ao) \<noteq> Z_STREAM_END \<and>
            (fst (z_inflate Z z inp ao) = Z_OK \<or> fst (snd (z_inflate Z z inp ao)) = 0) \<and>
            (inp \<noteq> [] \<and> 0 < ao \<longrightarrow> fst (z_inflate Z z inp ao) = Z_OK \<and>
               (0 < fst (snd (z_inflate Z z inp ao)) \<or> fst (snd (snd (z_inflate Z z inp ao))) \<noteq> [])))"
  using assms(1) [unfolded zlib_segment_def Let_def, THEN conjunct2, rule_format, of z k j inp ao]
    assms(2,3)
  by simp

text \<open>
  One call of \<open>inflate\<close> followed by the callback, on a segment that has not been consumed:
  the callback is given what was consumed, and the bookkeeping moves on by it.
\<close>

lemma seg_step:
  assumes C: "zlib_segment Z at strm n m"
    and inv: "seg_inv at strm n m k j zs1" and ai: "0 < avail_in zs1"
    and r_def: "r = fst (inflate Z (zs1, out))"
    and zs3_def: "zs3 = apkz_read_cb (avail_in zs1) r (fst (snd (inflate Z (zs1, out))))"
  shows "\<exists>c l. seg_inv at strm n m (k + c) (j + l) zs3 \<and>
           j + l + avail_out zs3 = j + avail_out zs1 \<and> eof zs3 = eof zs1 \<and>
           (r = Z_STREAM_END \<longleftrightarrow> k + c = n) \<and>
           (k + c < n \<longrightarrow> (r = Z_OK \<or> c = 0) \<and> (0 < avail_out zs1 \<longrightarrow> r = Z_OK \<and> 0 < c + l))"
proof -
  define inp where "inp = take (avail_in zs1) (drop (next_in zs1) (buf zs1))"
  define res where "res = z_inflate Z (zstate zs1) inp (avail_out zs1)"
  define c where "c = fst (snd res)"
  define outp where "outp = fst (snd (snd res))"
  define zs2 where "zs2 = fst (snd (inflate Z (zs1, out)))"
  have r_res: "r = fst res"
    by (simp add: r_def inflate_def Let_def res_def inp_def)
  have zs3_zs2: "zs3 = apkz_read_cb (avail_in zs1) r zs2"
    by (simp add: zs3_def zs2_def)
  from inv have at: "at (zstate zs1) k j" and ri: "raw_input zs1 = drop k strm"
    and win: "next_in zs1 + avail_in zs1 \<le> length (buf zs1)" and rc: "readcb zs1"
    and calls: "concat (map fst (readcb_calls zs1)) = take k strm"
    and sum: "sum_list (map snd (readcb_calls zs1)) = k"
    by (simp_all add: seg_inv_def)
  have li: "length inp = avail_in zs1" using win by (simp add: inp_def)
  have ine: "inp \<noteq> []" using li ai by auto
  have ri': "inp @ fd_bytes (fd zs1) = drop k strm" using ri by (simp add: raw_input_def inp_def)
  then have pre: "prefix inp (drop k strm)" by (metis prefixI)
  from zlib_segment_call [OF C at pre, of "avail_out zs1"] have step:
    "c \<le> length inp" "k + c \<le> n" "length outp \<le> avail_out zs1" "j + length outp \<le> m"
    "at (snd (snd (snd res))) (k + c) (j + length outp)"
    "k + c = n \<longrightarrow> r = Z_STREAM_END"
    "k + c < n \<longrightarrow> r \<noteq> Z_STREAM_END \<and> (r = Z_OK \<or> c = 0) \<and>
       (inp \<noteq> [] \<and> 0 < avail_out zs1 \<longrightarrow> r = Z_OK \<and> (0 < c \<or> outp \<noteq> []))"
    unfolding r_res c_def outp_def res_def by simp_all
  have ca: "c \<le> avail_in zs1" using step(1) li by simp
  have zs2_f: "readcb zs2 = readcb zs1" "eof zs2 = eof zs1" "readcb_calls zs2 = readcb_calls zs1"
    "avail_in zs2 = avail_in zs1 - c" "next_in zs2 = next_in zs1 + c"
    "avail_out zs2 = avail_out zs1 - length outp" "buf zs2 = buf zs1" "fd zs2 = fd zs1"
    "zstate zs2 = snd (snd (snd res))"
    using ca step(3)
    by (simp_all add: zs2_def inflate_def Let_def c_def outp_def res_def inp_def min_def)
  have rok: "0 < c \<Longrightarrow> r = Z_OK \<or> r = Z_STREAM_END"
    using step(2,6,7) by (cases "k + c = n") auto
  have taken: "take c (drop (next_in zs1) (buf zs1)) = take c (drop k strm)"
    using take_window [OF ca, of "next_in zs1" "buf zs1"] prefix_take_eq [OF pre step(1)]
    by (simp add: inp_def)
  have zs3_f: "readcb zs3 = readcb zs1" "eof zs3 = eof zs1" "avail_in zs3 = avail_in zs1 - c"
    "next_in zs3 = next_in zs1 + c" "avail_out zs3 = avail_out zs1 - length outp"
    "buf zs3 = buf zs1" "fd zs3 = fd zs1" "zstate zs3 = snd (snd (snd res))"
    by (simp_all add: zs3_zs2 apkz_read_cb_def Let_def zs2_f)
  have zs3_calls: "readcb_calls zs3 =
      (if 0 < c then readcb_calls zs1 @ [(take c (drop k strm), c)] else readcb_calls zs1)"
    using rok rc ca ai taken by (auto simp: zs3_zs2 apkz_read_cb_def Let_def zs2_f)
  have raw3: "raw_input zs3 = drop (k + c) strm"
  proof -
    have "raw_input zs3 = drop c inp @ fd_bytes (fd zs1)"
      using take_drop_step [OF ca, of "next_in zs1" "buf zs1"]
      by (simp add: raw_input_def zs3_f inp_def)
    also have "\<dots> = drop c (inp @ fd_bytes (fd zs1))" using step(1) by simp
    also have "\<dots> = drop (k + c) strm" by (simp add: ri' add.commute)
    finally show ?thesis .
  qed
  have lc: "length (take c (drop k strm)) = c"
    using taken [symmetric] ca win by simp
  have inv3: "seg_inv at strm n m (k + c) (j + length outp) zs3"
    unfolding seg_inv_def
    using step(2,4,5) raw3 win ca rc calls sum
    by (simp add: zs3_f zs3_calls take_add)
  have "j + length outp + avail_out zs3 = j + avail_out zs1"
    using step(3) by (simp add: zs3_f)
  moreover have "r = Z_STREAM_END \<longleftrightarrow> k + c = n"
    using step(2,6,7) by (cases "k + c = n") auto
  moreover have "k + c < n \<longrightarrow> (r = Z_OK \<or> c = 0) \<and>
              (0 < avail_out zs1 \<longrightarrow> r = Z_OK \<and> 0 < c + length outp)"
    using step(7) ine by auto
  ultimately show ?thesis
    using inv3 zs3_f(2)
    by (intro exI [of _ c] exI [of _ "length outp"]) simp
qed

lemma seg_inv_eof: "seg_inv at strm n m k j (zs\<lparr>eof := b\<rparr>) = seg_inv at strm n m k j zs"
  by (simp add: seg_inv_def raw_input_def)

lemma seg_inv_avail_out: "seg_inv at strm n m k j (zs\<lparr>avail_out := a\<rparr>) = seg_inv at strm n m k j zs"
  by (simp add: seg_inv_def raw_input_def)

lemma Z_OK_not_end: "Z_OK \<noteq> Z_STREAM_END"
  by (simp add: Z_OK_def Z_STREAM_END_def)

text \<open>The part of a pass that follows the refill, with input in front of the decompressor.\<close>

lemma seg_inflate:
  assumes C: "zlib_segment Z at strm n m"
    and inv: "seg_inv at strm n m k j zs1" and ai: "0 < avail_in zs1"
    and kn: "k < n" and ne: "\<not> eof zs1"
  shows "\<exists>k' j' zs'. seg_inv at strm n m k' j' zs' \<and> j' + avail_out zs' = j + avail_out zs1 \<and>
           (case apkz_read_inflate Z len False (zs1, out) of
              Inl res \<Rightarrow> fst res = zs' \<and> (eof zs' \<longleftrightarrow> k' = n) \<and>
                         (\<not> eof zs' \<longrightarrow> avail_out zs' = 0)
            | Inr next \<Rightarrow> fst next = False \<and> fst (snd next) = zs' \<and> k' < n \<and> \<not> eof zs' \<and>
                          0 < avail_out zs' \<and> k + j < k' + j')"
proof -
  define r where "r = fst (inflate Z (zs1, out))"
  define zs3 where "zs3 = apkz_read_cb (avail_in zs1) r (fst (snd (inflate Z (zs1, out))))"
  define o3 where "o3 = snd (snd (inflate Z (zs1, out)))"
  from seg_step [OF C inv ai r_def zs3_def] obtain c l where
    all: "seg_inv at strm n m (k + c) (j + l) zs3 \<and>
           j + l + avail_out zs3 = j + avail_out zs1 \<and> eof zs3 = eof zs1 \<and>
           (r = Z_STREAM_END \<longleftrightarrow> k + c = n) \<and>
           (k + c < n \<longrightarrow> (r = Z_OK \<or> c = 0) \<and> (0 < avail_out zs1 \<longrightarrow> r = Z_OK \<and> 0 < c + l))"
    by (elim exE) (rule that)
  from all have inv3: "seg_inv at strm n m (k + c) (j + l) zs3"
    and ao3: "j + l + avail_out zs3 = j + avail_out zs1"
    and eof3: "eof zs3 = eof zs1"
    and fin: "r = Z_STREAM_END \<longleftrightarrow> k + c = n"
    and run: "k + c < n \<longrightarrow> (r = Z_OK \<or> c = 0) \<and> (0 < avail_out zs1 \<longrightarrow> r = Z_OK \<and> 0 < c + l)"
    by simp_all
  have kc: "k + c \<le> n" using inv3 by (simp add: seg_inv_def)
  have pass: "apkz_read_inflate Z len False (zs1, out) =
     (if r = Z_STREAM_END then Inl (zs3\<lparr>eof := True\<rparr>, o3, int len - int (avail_out zs3))
      else if r \<noteq> Z_OK then Inl (zs3, o3, - 1)
      else if avail_out zs3 = 0 then Inl (zs3, o3, int len)
      else Inr (False, zs3, o3))"
    unfolding apkz_read_inflate_def Let_def zs3_def r_def o3_def
    by (simp only: fst_conv snd_conv if_False)
  show ?thesis
  proof (cases "r = Z_STREAM_END")
    case True
    with fin have "k + c = n" by simp
    with inv3 ao3 True show ?thesis
      unfolding pass
      by (intro exI [of _ "k + c"] exI [of _ "j + l"] exI [of _ "zs3\<lparr>eof := True\<rparr>"])
         (simp add: seg_inv_eof)
  next
    case False
    with fin kc have lt: "k + c < n" by simp
    from ne eof3 have ne3: "\<not> eof zs3" by simp
    show ?thesis
    proof (cases "r = Z_OK \<and> avail_out zs3 \<noteq> 0")
      case True
      then have "0 < avail_out zs1" using ao3 by simp
      with run lt have "0 < c + l" by simp
      with inv3 ao3 True False lt ne3 show ?thesis
        unfolding pass
        by (intro exI [of _ "k + c"] exI [of _ "j + l"] exI [of _ zs3]) simp
    next
      case nx: False
      have "avail_out zs3 = 0"
        using nx run lt ao3 by (cases "0 < avail_out zs1") auto
      with inv3 ao3 False lt ne3 nx show ?thesis
        unfolding pass
        by (intro exI [of _ "k + c"] exI [of _ "j + l"] exI [of _ zs3]) auto
    qed
  qed
qed

text \<open>One pass through the loop of \<open>apkz_read\<close> on a segment that has not been consumed.\<close>

lemma seg_pass:
  assumes C: "zlib_segment Z at strm n m" and nl: "n \<le> length strm"
    and inv: "seg_inv at strm n m k j zs" and kn: "k < n" and ne: "\<not> eof zs"
  shows "\<exists>k' j' zs'. seg_inv at strm n m k' j' zs' \<and> j' + avail_out zs' = j + avail_out zs \<and>
           (case apkz_read_pass Z len False (zs, out) of
              Inl res \<Rightarrow> fst res = zs' \<and> (eof zs' \<longleftrightarrow> k' = n) \<and>
                         (\<not> eof zs' \<longrightarrow> avail_out zs' = 0)
            | Inr next \<Rightarrow> fst next = False \<and> fst (snd next) = zs' \<and> k' < n \<and> \<not> eof zs' \<and>
                          0 < avail_out zs' \<and> k + j < k' + j')"
proof -
  define zsf where "zsf = snd (apkz_read_fill zs)"
  from inv have ri: "raw_input zs = drop k strm"
    and win: "next_in zs + avail_in zs \<le> length (buf zs)"
    by (simp_all add: seg_inv_def)
  from kn nl have kl: "k < length strm" by simp
  from seg_fill [OF ri kl win] have f: "0 < avail_in zsf" "raw_input zsf = raw_input zs"
    "next_in zsf + avail_in zsf \<le> length (buf zsf)"
    "\<forall>rr. fst (apkz_read_fill zs) = Some rr \<longrightarrow> 0 < rr"
    by (simp_all add: zsf_def)
  have invf: "seg_inv at strm n m k j zsf"
    using inv f(2,3) by (simp add: seg_inv_def zsf_def fill_keeps)
  have nef: "\<not> eof zsf" and aof: "avail_out zsf = avail_out zs"
    using ne by (simp_all add: zsf_def fill_keeps)
  have pass: "apkz_read_pass Z len False (zs, out) = apkz_read_inflate Z len False (zsf, out)"
    using f(4) by (auto simp: apkz_read_pass_def Let_def zsf_def split: option.splits)
  show ?thesis
    unfolding pass using seg_inflate [OF C invf f(1) kn nef, of len out] unfolding aof .
qed

text \<open>
  The loop of \<open>apkz_read\<close>: what holds when it returns, and that it returns when the fuel
  exceeds what is left of the segment and of its output.
\<close>

lemma seg_loop:
  assumes C: "zlib_segment Z at strm n m" and nl: "n \<le> length strm"
  shows "seg_inv at strm n m k j (fst st) \<Longrightarrow> k < n \<Longrightarrow> \<not> eof (fst st) \<Longrightarrow>
     (\<forall>res. apkz_read_loop fuel Z len False st = Some res \<longrightarrow>
        (\<exists>k' j'. seg_inv at strm n m k' j' (fst res) \<and>
           j' + avail_out (fst res) = j + avail_out (fst st) \<and> (eof (fst res) \<longleftrightarrow> k' = n) \<and>
           (\<not> eof (fst res) \<longrightarrow> avail_out (fst res) = 0))) \<and>
     ((n - k) + (m - j) < fuel \<longrightarrow> apkz_read_loop fuel Z len False st \<noteq> None)"
proof (induction fuel arbitrary: st k j)
  case 0
  then show ?case by simp
next
  case (Suc fuel)
  from seg_pass [OF C nl Suc.prems(1,2,3), of len "snd st"] obtain k' j' zs' where
    all: "seg_inv at strm n m k' j' zs' \<and> j' + avail_out zs' = j + avail_out (fst st) \<and>
           (case apkz_read_pass Z len False st of
              Inl res \<Rightarrow> fst res = zs' \<and> (eof zs' \<longleftrightarrow> k' = n) \<and>
                         (\<not> eof zs' \<longrightarrow> avail_out zs' = 0)
            | Inr next \<Rightarrow> fst next = False \<and> fst (snd next) = zs' \<and> k' < n \<and> \<not> eof zs' \<and>
                          0 < avail_out zs' \<and> k + j < k' + j')"
    by (elim exE) (rule that, simp)
  show ?case
  proof (cases "apkz_read_pass Z len False st")
    case (Inl res)
    with all show ?thesis by auto
  next
    case (Inr nx)
    with all have nx: "fst nx = False" "fst (snd nx) = zs'" "k' < n" "\<not> eof zs'"
      "0 < avail_out zs'" "k + j < k' + j'"
      and inv': "seg_inv at strm n m k' j' zs'"
      and ao': "j' + avail_out zs' = j + avail_out (fst st)"
      by simp_all
    have step: "apkz_read_loop (Suc fuel) Z len False st = apkz_read_loop fuel Z len False (snd nx)"
      using Inr nx(1) by simp
    from inv' have b: "k' \<le> n" "j' \<le> m" by (simp_all add: seg_inv_def)
    from Suc.prems(1) have b0: "k \<le> n" "j \<le> m" by (simp_all add: seg_inv_def)
    have ih: "(\<forall>res. apkz_read_loop fuel Z len False (snd nx) = Some res \<longrightarrow>
        (\<exists>k'' j''. seg_inv at strm n m k'' j'' (fst res) \<and>
           j'' + avail_out (fst res) = j' + avail_out zs' \<and> (eof (fst res) \<longleftrightarrow> k'' = n) \<and>
           (\<not> eof (fst res) \<longrightarrow> avail_out (fst res) = 0))) \<and>
     ((n - k') + (m - j') < fuel \<longrightarrow> apkz_read_loop fuel Z len False (snd nx) \<noteq> None)"
      using Suc.IH [of k' j' "snd nx"] inv' nx(2,3,4) by simp
    have meas: "(n - k) + (m - j) < Suc fuel \<longrightarrow> (n - k') + (m - j') < fuel"
      using nx(6) b b0 by arith
    show ?thesis
      unfolding step
    proof (intro conjI allI impI)
      fix res
      assume "apkz_read_loop fuel Z len False (snd nx) = Some res"
      with ih have "\<exists>k'' j''. seg_inv at strm n m k'' j'' (fst res) \<and>
           j'' + avail_out (fst res) = j' + avail_out zs' \<and> (eof (fst res) \<longleftrightarrow> k'' = n) \<and>
           (\<not> eof (fst res) \<longrightarrow> avail_out (fst res) = 0)"
        by simp
      then obtain k'' j'' where x: "seg_inv at strm n m k'' j'' (fst res) \<and>
           j'' + avail_out (fst res) = j' + avail_out zs' \<and> (eof (fst res) \<longleftrightarrow> k'' = n) \<and>
           (\<not> eof (fst res) \<longrightarrow> avail_out (fst res) = 0)"
        by (elim exE) (rule that)
      then show "\<exists>k' j'. seg_inv at strm n m k' j' (fst res) \<and>
           j' + avail_out (fst res) = j + avail_out (fst st) \<and> (eof (fst res) \<longleftrightarrow> k' = n) \<and>
           (\<not> eof (fst res) \<longrightarrow> avail_out (fst res) = 0)"
        using ao' by (intro exI [of _ k''] exI [of _ j'']) simp
    next
      assume "(n - k) + (m - j) < Suc fuel"
      with meas ih show "apkz_read_loop fuel Z len False (snd nx) \<noteq> None" by simp
    qed
  qed
qed

text \<open>One call of \<open>apkz_read\<close> on a segment that has not been consumed.\<close>

lemma seg_read:
  assumes C: "zlib_segment Z at strm n m" and nl: "n \<le> length strm"
    and inv: "seg_inv at strm n m k j zs" and kn: "k < n" and ne: "\<not> eof zs"
  shows "(\<forall>res. apkz_read fuel Z (Some zs) len = Some res \<longrightarrow>
           (\<exists>zs' k' j'. fst res = Some zs' \<and> seg_inv at strm n m k' j' zs' \<and>
              (eof zs' \<longleftrightarrow> k' = n) \<and> (\<not> eof zs' \<longrightarrow> j' = j + room len))) \<and>
         (n + m < fuel \<longrightarrow> apkz_read fuel Z (Some zs) len \<noteq> None)"
proof -
  let ?st = "(zs\<lparr>avail_out := len mod 2 ^ 32\<rparr>, [] :: byte list)"
  have inv0: "seg_inv at strm n m k j (fst ?st)" using inv by (simp add: seg_inv_avail_out)
  from seg_loop [OF C nl inv0, of fuel len] kn ne
  have loop: "(\<forall>res. apkz_read_loop fuel Z len False ?st = Some res \<longrightarrow>
        (\<exists>k' j'. seg_inv at strm n m k' j' (fst res) \<and>
           j' + avail_out (fst res) = j + room len \<and> (eof (fst res) \<longleftrightarrow> k' = n) \<and>
           (\<not> eof (fst res) \<longrightarrow> avail_out (fst res) = 0)))"
    and ret: "(n - k) + (m - j) < fuel \<longrightarrow> apkz_read_loop fuel Z len False ?st \<noteq> None"
    by (simp_all add: room_def)
  have rd: "apkz_read fuel Z (Some zs) len =
      (case apkz_read_loop fuel Z len False ?st of
         None \<Rightarrow> None | Some res \<Rightarrow> Some (Some (fst res), snd res))"
    using ne by (simp add: apkz_read_def)
  show ?thesis
  proof (cases "apkz_read_loop fuel Z len False ?st")
    case None
    with ret show ?thesis unfolding rd by auto
  next
    case (Some res)
    from loop [rule_format, OF Some] obtain k' j' where
      x: "seg_inv at strm n m k' j' (fst res) \<and> j' + avail_out (fst res) = j + room len \<and>
        (eof (fst res) \<longleftrightarrow> k' = n) \<and> (\<not> eof (fst res) \<longrightarrow> avail_out (fst res) = 0)"
      by (elim exE) (rule that)
    then have "\<not> eof (fst res) \<longrightarrow> j' = j + room len"
      by auto
    with x show ?thesis
      unfolding rd Some
      by (simp, intro exI [of _ k'] conjI exI [of _ j']) simp_all
  qed
qed

lemma apkz_reads_eof: "eof zs \<Longrightarrow> apkz_reads fuel Z lens (Some zs) = Some (Some zs)"
  by (induction lens) (simp_all add: apkz_read_def)

text \<open>
  A caller reading with any buffer sizes: the bookkeeping holds after every read; and when
  the sizes offer more room than the segment has output, the end marker is reached.
\<close>

lemma seg_reads:
  assumes C: "zlib_segment Z at strm n m" and nl: "n \<le> length strm"
  shows "seg_inv at strm n m k j zs \<Longrightarrow> (eof zs \<longleftrightarrow> k = n) \<Longrightarrow>
     apkz_reads fuel Z lens (Some zs) = Some c' \<Longrightarrow>
     \<exists>zs' k' j'. c' = Some zs' \<and> seg_inv at strm n m k' j' zs' \<and> (eof zs' \<longleftrightarrow> k' = n)"
proof (induction lens arbitrary: zs k j)
  case Nil
  then show ?case by auto
next
  case (Cons len lens)
  show ?case
  proof (cases "eof zs")
    case True
    from apkz_reads_eof [OF True, of fuel Z "len # lens"] Cons.prems show ?thesis
      by (auto simp del: apkz_reads.simps)
  next
    case False
    with Cons.prems(1,2) have kn: "k < n" by (simp add: seg_inv_def)
    from Cons.prems(3) obtain res where r: "apkz_read fuel Z (Some zs) len = Some res"
      and rest: "apkz_reads fuel Z lens (fst res) = Some c'"
      by (auto split: option.splits)
    from seg_read [OF C nl Cons.prems(1) kn False, of fuel len] r
    obtain zs1 k1 j1 where "fst res = Some zs1" "seg_inv at strm n m k1 j1 zs1" "eof zs1 \<longleftrightarrow> k1 = n"
      by auto
    with Cons.IH [of k1 j1 zs1] rest show ?thesis by simp
  qed
qed

lemma seg_reads_end:
  assumes C: "zlib_segment Z at strm n m" and nl: "n \<le> length strm" and fl: "n + m < fuel"
  shows "seg_inv at strm n m k j zs \<Longrightarrow> (eof zs \<longleftrightarrow> k = n) \<Longrightarrow>
     eof zs \<or> m < j + sum_list (map room lens) \<Longrightarrow>
     \<exists>zs'. apkz_reads fuel Z lens (Some zs) = Some (Some zs') \<and> eof zs'"
proof (induction lens arbitrary: zs k j)
  case Nil
  then show ?case by (auto simp: seg_inv_def)
next
  case (Cons len lens)
  show ?case
  proof (cases "eof zs")
    case True
    from apkz_reads_eof [OF True, of fuel Z "len # lens"] True show ?thesis
      by (simp del: apkz_reads.simps)
  next
    case False
    with Cons.prems(1,2) have kn: "k < n" by (simp add: seg_inv_def)
    from seg_read [OF C nl Cons.prems(1) kn False, of fuel len] fl
    obtain res where r: "apkz_read fuel Z (Some zs) len = Some res"
      and post: "\<exists>zs' k' j'. fst res = Some zs' \<and> seg_inv at strm n m k' j' zs' \<and>
              (eof zs' \<longleftrightarrow> k' = n) \<and> (\<not> eof zs' \<longrightarrow> j' = j + room len)"
      by (cases "apkz_read fuel Z (Some zs) len") auto
    from post obtain zs1 k1 j1 where z1: "fst res = Some zs1" "seg_inv at strm n m k1 j1 zs1"
      "eof zs1 \<longleftrightarrow> k1 = n" "\<not> eof zs1 \<longrightarrow> j1 = j + room len"
      by blast
    have "eof zs1 \<or> m < j1 + sum_list (map room lens)"
      using z1(4) Cons.prems(3) False by auto
    from Cons.IH [OF z1(2,3) this] show ?thesis
      by (simp add: r z1(1))
  qed
qed

lemma apkz_reset_state:
  "apkz_reset Z zs0 = (zs1, 1) \<Longrightarrow> next_in zs0 + avail_in zs0 \<le> length (buf zs0) \<Longrightarrow>
   (\<exists>z. zstate zs1 = z_reset Z z) \<and> \<not> eof zs1 \<and> next_in zs1 + avail_in zs1 \<le> length (buf zs1)"
  by (cases "fd zs0" rule: fd_bytes.cases)
     (auto simp: apkz_reset_def Let_def read_fd_def split: if_splits)

lemma stored_zlib_segment:
  "zlib_segment (stored_zlib n) (\<lambda>z k j. z + k = n \<and> j = k) strm n n"
  by (auto simp: zlib_segment_def stored_zlib_def Let_def Z_OK_def Z_STREAM_END_def Z_BUF_ERROR_def
      min_def)

text \<open>
  C4: after \<open>apkz_reset\<close> has positioned the adapter at the start of a segment, a callback
  is registered and the caller reads with the buffer sizes \<open>lens\<close>. The raw input from that
  position on begins with the segment, of compressed length \<open>n\<close>, which decompresses to \<open>m\<close>
  bytes. Whatever the sizes are, once the end marker of the segment has been reported
  (\<open>eof\<close> is set) the counts given to the callback add up to \<open>n\<close>, and the bytes given to it
  are the \<open>n\<close> bytes of the segment; and the end marker is reported whenever the sizes offer
  more room than the segment has output (a size of \<open>len\<close> offers \<open>len mod 2 ^ 32\<close> bytes)
  and the fuel exceeds \<open>n + m\<close>.
\<close>

theorem apkz_read_callback_total:
  assumes "apkz_reset Z zs0 = (zs1, 1)"
    and "next_in zs0 + avail_in zs0 \<le> length (buf zs0)"
    and "zlib_segment Z at (raw_input zs1) n m"
    and "0 < n" and "n \<le> length (raw_input zs1)"
  shows "(apkz_reads fuel Z lens (Some (zs1\<lparr>readcb := True, readcb_calls := []\<rparr>)) = Some (Some zs')
            \<and> eof zs' \<longrightarrow>
          sum_list (map snd (readcb_calls zs')) = n \<and>
          concat (map fst (readcb_calls zs')) = take n (raw_input zs1)) \<and>
         (n + m < fuel \<and> m < sum_list (map room lens) \<longrightarrow>
          (\<exists>zs''. apkz_reads fuel Z lens (Some (zs1\<lparr>readcb := True, readcb_calls := []\<rparr>))
                     = Some (Some zs'') \<and> eof zs'' \<and>
                  sum_list (map snd (readcb_calls zs'')) = n \<and>
                  concat (map fst (readcb_calls zs'')) = take n (raw_input zs1)))"
proof -
  let ?zs = "zs1\<lparr>readcb := True, readcb_calls := []\<rparr>"
  from apkz_reset_state [OF assms(1,2)] obtain z where z: "zstate zs1 = z_reset Z z"
    and ne: "\<not> eof zs1" and win: "next_in zs1 + avail_in zs1 \<le> length (buf zs1)"
    by blast
  from assms(3) have "at (z_reset Z z) 0 0" by (simp add: zlib_segment_def)
  with z win have inv: "seg_inv at (raw_input zs1) n m 0 0 ?zs"
    by (simp add: seg_inv_def raw_input_def)
  have e: "eof ?zs \<longleftrightarrow> 0 = n" using ne assms(4) by simp
  have safe: "sum_list (map snd (readcb_calls y)) = n \<and>
          concat (map fst (readcb_calls y)) = take n (raw_input zs1)"
    if "apkz_reads fuel Z lens (Some ?zs) = Some (Some y)" and "eof y" for y
  proof -
    from seg_reads [OF assms(3,5) inv e that(1)] obtain k' j' where
      "seg_inv at (raw_input zs1) n m k' j' y" "eof y \<longleftrightarrow> k' = n" by auto
    with that(2) show ?thesis by (simp add: seg_inv_def)
  qed
  show ?thesis
  proof (intro conjI impI)
    assume "apkz_reads fuel Z lens (Some ?zs) = Some (Some zs') \<and> eof zs'"
    with safe [of zs'] show "sum_list (map snd (readcb_calls zs')) = n"
      and "concat (map fst (readcb_calls zs')) = take n (raw_input zs1)" by simp_all
  next
    assume a: "n + m < fuel \<and> m < sum_list (map room lens)"
    then have "eof ?zs \<or> m < 0 + sum_list (map room lens)" by simp
    from seg_reads_end [OF assms(3,5) _ inv e this, of fuel] a
    obtain y where y: "apkz_reads fuel Z lens (Some ?zs) = Some (Some y)" "eof y" by auto
    with safe [of y] show "\<exists>zs''. apkz_reads fuel Z lens (Some ?zs) = Some (Some zs'') \<and> eof zs'' \<and>
                  sum_list (map snd (readcb_calls zs'')) = n \<and>
                  concat (map fst (readcb_calls zs'')) = take n (raw_input zs1)"
      by (intro exI [of _ y]) simp
  qed
qed

theorem apkz_read_callback_total_witness:
  "apkz_reset (stored_zlib 3)
     \<lparr>fd = [Some [1, 2], Some [3, 4, 5]], eof = True, avail_in = 0, next_in = 0, avail_out = 0,
      zstate = 0, buf = [], readcb = False, readcb_calls = []\<rparr> =
     (\<lparr>fd = [Some [3, 4, 5]], eof = False, avail_in = 2, next_in = 0, avail_out = 0,
       zstate = 3, buf = [1, 2], readcb = False, readcb_calls = []\<rparr>, 1) \<and>
   zlib_segment (stored_zlib 3) (\<lambda>z k j. z + k = 3 \<and> j = k) [1, 2, 3, 4, 5] 3 3 \<and>
   raw_input \<lparr>fd = [Some [3, 4, 5]], eof = False, avail_in = 2, next_in = 0, avail_out = 0,
       zstate = 3 :: nat, buf = [1, 2], readcb = False, readcb_calls = []\<rparr> =
     [1, 2, 3, 4, 5] \<and>
   apkz_reads (Suc (Suc (Suc (Suc (Suc (Suc (Suc 0))))))) (stored_zlib 3) [5, 2]
     (Some \<lparr>fd = [Some [3, 4, 5]], eof = False, avail_in = 2, next_in = 0, avail_out = 0,
       zstate = 3, buf = [1, 2], readcb = True, readcb_calls = []\<rparr>) =
     Some (Some \<lparr>fd = [], eof = True, avail_in = 2, next_in = 1, avail_out = 2,
       zstate = 0, buf = [3, 4, 5], readcb = True, readcb_calls = [([1, 2], 2), ([3], 1)]\<rparr>) \<and>
   sum_list (map snd [([1, 2] :: byte list, 2 :: nat), ([3], 1)]) = 3 \<and>
   concat (map fst [([1, 2] :: byte list, 2 :: nat), ([3], 1)]) = take 3 [1, 2, 3, 4, 5]"
proof -
  let ?zs0 = "\<lparr>fd = [Some [1, 2], Some [3, 4, 5]], eof = True, avail_in = 0, next_in = 0,
      avail_out = 0, zstate = 0 :: nat, buf = [], readcb = False, readcb_calls = []\<rparr>"
  let ?zs1 = "\<lparr>fd = [Some [3, 4, 5]], eof = False, avail_in = 2, next_in = 0, avail_out = 0,
      zstate = 3 :: nat, buf = [1, 2], readcb = False, readcb_calls = []\<rparr>"
  let ?zs' = "\<lparr>fd = [], eof = True, avail_in = 2, next_in = 1, avail_out = 2,
       zstate = 0 :: nat, buf = [3, 4, 5], readcb = True, readcb_calls = [([1, 2], 2), ([3], 1)]\<rparr>"
  let ?fuel = "Suc (Suc (Suc (Suc (Suc (Suc (Suc 0))))))"
  have a: "apkz_reset (stored_zlib 3) ?zs0 = (?zs1, 1)"
    by (simp add: apkz_reset_def stored_zlib_def read_fd_def Let_def)
  have b: "next_in ?zs0 + avail_in ?zs0 \<le> length (buf ?zs0)" by simp
  have raw: "raw_input ?zs1 = [1, 2, 3, 4, 5]" by (simp add: raw_input_def)
  have c: "zlib_segment (stored_zlib 3) (\<lambda>z k j. z + k = 3 \<and> j = k) (raw_input ?zs1) 3 3"
    by (rule stored_zlib_segment)
  have d: "apkz_reads ?fuel (stored_zlib 3) [5, 2] (Some (?zs1\<lparr>readcb := True, readcb_calls := []\<rparr>))
             = Some (Some ?zs')"
    by (simp add: stored_zlib_def read_fd_def Let_def apkz_read_def
        apkz_read_pass_def inflate_def Z_OK_def Z_STREAM_END_def Z_BUF_ERROR_def
        apkz_read_inflate_def apkz_read_cb_def apkz_read_fill_def)
  have e: "(3 :: nat) + 3 < ?fuel" "(3 :: nat) < sum_list (map room [5, 2])"
    by (simp_all add: room_def)
  from apkz_read_callback_total [OF a b c, of ?fuel "[5, 2]" ?zs'] a c d e raw
  show ?thesis by simp
qed

section \<open>Properties of the archive dialect\<close>

lemma pkginfo_field_other:
  "take 9 line \<noteq> ''origin = '' \<Longrightarrow>
   attrs (fst (pkginfo_field h line st)) (h', SOLVABLE_SOURCENAME) = attrs (fst st) (h', SOLVABLE_SOURCENAME)
   \<and> snd (snd (pkginfo_field h line st)) = snd (snd st)"
  by (simp add: pkginfo_field_def Let_def repodata_set_def repodata_add_poolstr_array_def)

lemma pkginfo_field_name:
  "take 10 line \<noteq> ''pkgname = '' \<Longrightarrow>
   name (fst (snd (pkginfo_field h line st))) = name (fst (snd st))"
  by (simp add: pkginfo_field_def Let_def add_deps_name)

lemma pkginfo_field_repo:
  "solvables (fst (pkginfo_field h line st)) = solvables (fst st) \<and>
   errors (fst (pkginfo_field h line st)) = errors (fst st)"
  by (simp add: pkginfo_field_def Let_def repodata_set_def repodata_add_poolstr_array_def)

lemma pkginfo_field_pkgname:
  "pkginfo_field h (''pkgname = '' @ x) st = (fst st, (fst (snd st))\<lparr>name := pool_str2id x\<rparr>, snd (snd st))"
  by (simp add: pkginfo_field_def Let_def)

lemma pkginfo_field_origin:
  "pkginfo_field h (''origin = '' @ y) st =
     (repodata_set h SOLVABLE_SOURCENAME
        (if name (fst (snd st)) \<noteq> ID_NULL \<and> y = pool_id2str (name (fst (snd st))) then AVoid
         else AId (pool_str2id y)) (fst st),
      fst (snd st), True)"
  by (simp add: pkginfo_field_def Let_def)


lemma pkginfo_line_other:
  "take 9 (chomp raw) \<noteq> ''origin = '' \<Longrightarrow>
   attrs (fst (fst (pkginfo_line h raw acc))) (h', SOLVABLE_SOURCENAME)
     = attrs (fst (fst acc)) (h', SOLVABLE_SOURCENAME)
   \<and> snd (snd (fst (pkginfo_line h raw acc))) = snd (snd (fst acc))"
  by (simp add: pkginfo_line_def Let_def pkginfo_field_other)

lemma pkginfo_line_name:
  "take 10 (chomp raw) \<noteq> ''pkgname = '' \<Longrightarrow>
   name (fst (snd (fst (pkginfo_line h raw acc)))) = name (fst (snd (fst acc)))"
  by (simp add: pkginfo_line_def Let_def pkginfo_field_name)

lemma pkginfo_line_repo:
  "solvables (fst (fst (pkginfo_line h raw acc))) = solvables (fst (fst acc)) \<and>
   errors (fst (fst (pkginfo_line h raw acc))) = errors (fst (fst acc))"
  by (simp add: pkginfo_line_def Let_def pkginfo_field_repo)

lemma pkginfo_line_pkgname:
  "chomp raw = ''pkgname = '' @ x \<Longrightarrow>
   fst (pkginfo_line h raw acc) =
     (fst (fst acc), (fst (snd (fst acc)))\<lparr>name := pool_str2id x\<rparr>, snd (snd (fst acc)))"
  using pkginfo_field_pkgname [of h x "fst acc"] by (simp add: pkginfo_line_def Let_def)

lemma pkginfo_line_origin:
  "chomp raw = ''origin = '' @ y \<Longrightarrow>
   fst (pkginfo_line h raw acc) =
     (repodata_set h SOLVABLE_SOURCENAME
        (if name (fst (snd (fst acc))) \<noteq> ID_NULL \<and> y = pool_id2str (name (fst (snd (fst acc))))
         then AVoid else AId (pool_str2id y)) (fst (fst acc)),
      fst (snd (fst acc)), True)"
  using pkginfo_field_origin [of h y "fst acc"] by (simp add: pkginfo_line_def Let_def)

lemma pkginfo_lines_append:
  "\<forall>l\<in>set ls. l \<noteq> [] \<Longrightarrow>
   pkginfo_lines h (ls @ ls') acc = pkginfo_lines h ls' (pkginfo_lines h ls acc)"
  by (induction ls arbitrary: acc) auto

lemma pkginfo_lines_other:
  "\<forall>l\<in>set ls. take 9 (chomp l) \<noteq> ''origin = '' \<Longrightarrow>
   attrs (fst (fst (pkginfo_lines h ls acc))) (h', SOLVABLE_SOURCENAME)
     = attrs (fst (fst acc)) (h', SOLVABLE_SOURCENAME)
   \<and> snd (snd (fst (pkginfo_lines h ls acc))) = snd (snd (fst acc))"
  by (induction ls arbitrary: acc) (auto simp: pkginfo_line_other)

lemma pkginfo_lines_name:
  "\<forall>l\<in>set ls. take 10 (chomp l) \<noteq> ''pkgname = '' \<Longrightarrow>
   name (fst (snd (fst (pkginfo_lines h ls acc)))) = name (fst (snd (fst acc)))"
  by (induction ls arbitrary: acc) (auto simp: pkginfo_line_name)

lemma pkginfo_lines_repo:
  "solvables (fst (fst (pkginfo_lines h ls acc))) = solvables (fst (fst acc)) \<and>
   errors (fst (fst (pkginfo_lines h ls acc))) = errors (fst (fst acc))"
  by (induction ls arbitrary: acc) (auto simp: pkginfo_line_repo)

lemma pkgname_line_hd: "take 10 l = ''pkgname = '' \<Longrightarrow> l \<noteq> [] \<and> hd l = CHR ''p''"
  by (cases l) auto

lemma pkginfo_line_named:
  "name (fst (snd (fst acc))) \<noteq> ID_NULL \<Longrightarrow> name (fst (snd (fst (pkginfo_line h raw acc)))) \<noteq> ID_NULL"
proof (cases "take 10 (chomp raw) = ''pkgname = ''")
  case True
  with pkgname_line_hd [OF True] show ?thesis
    by (simp add: pkginfo_line_def Let_def pkginfo_field_def pool_str2id_def)
next
  case False
  assume "name (fst (snd (fst acc))) \<noteq> ID_NULL"
  with pkginfo_line_name [OF False, of h acc] show ?thesis by simp
qed

lemma pkginfo_lines_named:
  "name (fst (snd (fst acc))) \<noteq> ID_NULL \<Longrightarrow> name (fst (snd (fst (pkginfo_lines h ls acc)))) \<noteq> ID_NULL"
  by (induction ls arbitrary: acc) (auto simp: pkginfo_line_named)

lemma pkg_entries_skip:
  "pk_s st = None \<Longrightarrow> \<forall>e\<in>set sk. th_type e \<noteq> 1 \<or> th_path e \<noteq> ''.PKGINFO'' \<Longrightarrow>
   pkg_entries flags fn (sk @ es) st = pkg_entries flags fn es st"
  by (induction sk) auto

lemma pkg_entries_done: "pk_s st \<noteq> None \<Longrightarrow> pkg_entries flags fn es st = st"
  by (induction es) auto

lemma pkg_entries_oversized:
  assumes "pk_s st = None" "\<forall>e\<in>set sk. th_type e \<noteq> 1 \<or> th_path e \<noteq> ''.PKGINFO''"
    "th_type th = 1" "th_path th = ''.PKGINFO''" "th_length th > 10 * 1024 * 1024"
  shows "pkg_entries flags fn (sk @ th # rest) st =
           st\<lparr>pk_repo := pool_error (fn @ '': oversized .PKGINFO'') (pk_repo st)\<rparr>"
  using assms by (simp add: pkg_entries_skip)

lemma pkg_entries_hit:
  assumes "pk_s st = None" "\<forall>e\<in>set sk. th_type e \<noteq> 1 \<or> th_path e \<noteq> ''.PKGINFO''"
    "th_type th = 1" "th_path th = ''.PKGINFO''" "th_length th \<le> 10 * 1024 * 1024"
    "pkginfo_lines (length (solvables (pk_repo st))) (th_lines th)
       ((pk_repo st, new_solvable, pk_haveorigin st),
        if APK_ADD_WITH_PKGID \<in> flags then Some [] else pk_pkgidchk st) = ((r1, s1, ho), chk)"
  shows "pkg_entries flags fn (sk @ th # rest) st =
           \<lparr>pk_repo = r1, pk_s = Some s1, pk_pkgidchk = chk, pk_haveorigin = ho\<rparr>"
  using assms by (simp add: pkg_entries_skip pkg_entries_done Let_def)

text \<open>
  C7: when the metadata entry (the first regular entry called \<open>.PKGINFO\<close>) has a declared size
  above 10 MiB, the call returns 0 and creates no record, and where the file could be read
  up to that entry the error reported is the one of the oversized metadata. (The call whose
  \<open>inflateInit2\<close> fails has no defined behaviour and reads no entry.)
\<close>

theorem repo_add_apk_pkg_oversized:
  assumes "af_entries file = sk @ th # rest"
    and "\<forall>e\<in>set sk. th_type e \<noteq> 1 \<or> th_path e \<noteq> ''.PKGINFO''"
    and "th_type th = 1" and "th_path th = ''.PKGINFO''"
    and "th_length th > 10 * 1024 * 1024"
    and "af_open file \<longrightarrow> af_zopen file"
  shows "\<exists>r'. repo_add_apk_pkg r fn file flags = Some (r', None) \<and>
           solvables r' = solvables r \<and> attrs r' = attrs r \<and>
           (af_open file \<and> af_zopen file \<and> af_cookieopen file \<and> af_reset file = 1 \<longrightarrow>
              r' = pool_error (fn @ '': oversized .PKGINFO'') r)"
  using pkg_entries_oversized [OF _ assms(2-5), of
      "\<lparr>pk_repo = r, pk_s = None, pk_pkgidchk = None, pk_haveorigin = False\<rparr>" flags fn rest] assms(6)
  by (simp add: repo_add_apk_pkg_def assms(1) Let_def pool_error_def)

lemma repo_add_apk_pkg_entry:
  assumes arch: "pkginfo_archive file sk th rest"
    and acc: "acc = pkginfo_lines (length (solvables r)) (th_lines th)
       ((r, new_solvable, False), if APK_ADD_WITH_PKGID \<in> flags then Some [] else None)"
    and nm: "name (fst (snd (fst acc))) \<noteq> ID_NULL"
  shows "\<exists>r'. repo_add_apk_pkg r fn file flags = Some (r', Some (length (solvables r))) \<and>
           solvables r' = solvables r @
             [snd (finish_solvable (length (solvables r)) (snd (snd (fst acc)))
                     (fst (fst acc), fst (snd (fst acc))))] \<and>
           attrs r' (length (solvables r), SOLVABLE_SOURCENAME) =
             (if snd (snd (fst acc))
              then attrs (fst (fst acc)) (length (solvables r), SOLVABLE_SOURCENAME)
              else Some AVoid)"
proof -
  let ?st0 = "\<lparr>pk_repo = r, pk_s = None, pk_pkgidchk = None, pk_haveorigin = False\<rparr>"
  from arch have ok: "af_open file" "af_zopen file" "af_cookieopen file" "af_reset file = 1"
    and ent: "af_entries file = sk @ th # rest"
      "\<forall>e\<in>set sk. th_type e \<noteq> 1 \<or> th_path e \<noteq> ''.PKGINFO''"
      "th_type th = 1" "th_path th = ''.PKGINFO''" "th_length th \<le> 10 * 1024 * 1024"
    by (simp_all add: pkginfo_archive_def)
  have "pkginfo_lines (length (solvables (pk_repo ?st0))) (th_lines th)
       ((pk_repo ?st0, new_solvable, pk_haveorigin ?st0),
        if APK_ADD_WITH_PKGID \<in> flags then Some [] else pk_pkgidchk ?st0)
          = ((fst (fst acc), fst (snd (fst acc)), snd (snd (fst acc))), snd acc)"
    by (simp add: acc)
  from pkg_entries_hit [where fn = fn and rest = rest, OF _ ent(2-5) this]
  have "pkg_entries flags fn (af_entries file) ?st0 =
          \<lparr>pk_repo = fst (fst acc), pk_s = Some (fst (snd (fst acc))), pk_pkgidchk = snd acc,
           pk_haveorigin = snd (snd (fst acc))\<rparr>"
    by (simp add: ent(1))
  moreover have "solvables (fst (fst acc)) = solvables r"
    using pkginfo_lines_repo [of "length (solvables r)" "th_lines th"
        "((r, new_solvable, False), if APK_ADD_WITH_PKGID \<in> flags then Some [] else None)"]
    by (simp add: acc)
  ultimately show ?thesis
    using ok nm
    by (simp add: repo_add_apk_pkg_def Let_def finish_solvable_def repodata_set_def
        split: option.splits)
qed

lemma finish_solvable_name: "name (snd (finish_solvable h ho st)) = name (snd st)"
  by (simp add: finish_solvable_def Let_def)

lemma pkginfo_lines_origin_after_name:
  assumes ne: "\<forall>l\<in>set (pre @ ln # mid @ lo # post). l \<noteq> []"
    and ln: "chomp ln = ''pkgname = '' @ x" and lo: "chomp lo = ''origin = '' @ y"
    and mid: "\<forall>l\<in>set mid. take 10 (chomp l) \<noteq> ''pkgname = ''"
    and post: "\<forall>l\<in>set post. take 9 (chomp l) \<noteq> ''origin = ''"
  shows "attrs (fst (fst (pkginfo_lines h (pre @ ln # mid @ lo # post) acc))) (h, SOLVABLE_SOURCENAME)
           = Some (if y = x then AVoid else AId (pool_str2id y))
         \<and> snd (snd (fst (pkginfo_lines h (pre @ ln # mid @ lo # post) acc)))
         \<and> name (fst (snd (fst (pkginfo_lines h (pre @ ln # mid @ lo # post) acc)))) \<noteq> ID_NULL"
proof -
  define a1 where "a1 = pkginfo_lines h pre acc"
  define a2 where "a2 = pkginfo_line h ln a1"
  define a3 where "a3 = pkginfo_lines h mid a2"
  define a4 where "a4 = pkginfo_line h lo a3"
  define a5 where "a5 = pkginfo_lines h post a4"
  have split: "pkginfo_lines h (pre @ ln # mid @ lo # post) acc = a5"
    using ne by (simp add: pkginfo_lines_append a1_def a2_def a3_def a4_def a5_def)
  have n2: "name (fst (snd (fst a2))) = pool_str2id x"
    by (simp add: a2_def pkginfo_line_pkgname [OF ln])
  have n3: "name (fst (snd (fst a3))) = pool_str2id x"
    using pkginfo_lines_name [OF mid, of h a2] n2 by (simp add: a3_def)
  have a4: "attrs (fst (fst a4)) (h, SOLVABLE_SOURCENAME) = Some (if y = x then AVoid else AId (pool_str2id y))"
    "snd (snd (fst a4))" "name (fst (snd (fst a4))) \<noteq> ID_NULL"
    using n3 by (auto simp: a4_def pkginfo_line_origin [OF lo] repodata_set_def pool_str2id_def)
  show ?thesis
    unfolding split a5_def
    using pkginfo_lines_other [OF post, of h a4 h] pkginfo_lines_named [OF a4(3), of h post] a4(1,2)
    by simp
qed

lemma pkginfo_lines_origin_before_name:
  assumes ne: "\<forall>l\<in>set (pre @ lo # mid @ ln # post). l \<noteq> []"
    and ln: "chomp ln = ''pkgname = '' @ x" and lo: "chomp lo = ''origin = '' @ y"
    and pre: "\<forall>l\<in>set pre. take 10 (chomp l) \<noteq> ''pkgname = ''"
    and mid: "\<forall>l\<in>set mid. take 9 (chomp l) \<noteq> ''origin = ''"
    and post: "\<forall>l\<in>set post. take 9 (chomp l) \<noteq> ''origin = '' \<and> take 10 (chomp l) \<noteq> ''pkgname = ''"
    and acc: "name (fst (snd (fst acc))) = ID_NULL"
  shows "attrs (fst (fst (pkginfo_lines h (pre @ lo # mid @ ln # post) acc))) (h, SOLVABLE_SOURCENAME)
           = Some (AId (pool_str2id y))
         \<and> snd (snd (fst (pkginfo_lines h (pre @ lo # mid @ ln # post) acc)))
         \<and> name (fst (snd (fst (pkginfo_lines h (pre @ lo # mid @ ln # post) acc)))) = pool_str2id x"
proof -
  define a1 where "a1 = pkginfo_lines h pre acc"
  define a2 where "a2 = pkginfo_line h lo a1"
  define a3 where "a3 = pkginfo_lines h mid a2"
  define a4 where "a4 = pkginfo_line h ln a3"
  define a5 where "a5 = pkginfo_lines h post a4"
  have split: "pkginfo_lines h (pre @ lo # mid @ ln # post) acc = a5"
    using ne by (simp add: pkginfo_lines_append a1_def a2_def a3_def a4_def a5_def)
  have n1: "name (fst (snd (fst a1))) = ID_NULL"
    using pkginfo_lines_name [OF pre, of h acc] acc by (simp add: a1_def)
  have a2: "attrs (fst (fst a2)) (h, SOLVABLE_SOURCENAME) = Some (AId (pool_str2id y))" "snd (snd (fst a2))"
    using n1 by (auto simp: a2_def pkginfo_line_origin [OF lo] repodata_set_def)
  have a3: "attrs (fst (fst a3)) (h, SOLVABLE_SOURCENAME) = Some (AId (pool_str2id y))" "snd (snd (fst a3))"
    using pkginfo_lines_other [OF mid, of h a2 h] a2 by (simp_all add: a3_def)
  have a4: "attrs (fst (fst a4)) (h, SOLVABLE_SOURCENAME) = Some (AId (pool_str2id y))" "snd (snd (fst a4))"
    "name (fst (snd (fst a4))) = pool_str2id x"
    using a3 by (simp_all add: a4_def pkginfo_line_pkgname [OF ln])
  have po: "\<forall>l\<in>set post. take 9 (chomp l) \<noteq> ''origin = ''"
    "\<forall>l\<in>set post. take 10 (chomp l) \<noteq> ''pkgname = ''"
    using post by auto
  show ?thesis
    unfolding split a5_def
    using pkginfo_lines_other [OF po(1), of h a4 h] pkginfo_lines_name [OF po(2), of h a4] a4
    by simp
qed

lemma pkginfo_lines_no_origin:
  assumes nm: "\<exists>l\<in>set ls. take 10 (chomp l) = ''pkgname = ''"
    and ne: "\<forall>l\<in>set ls. l \<noteq> []"
    and no: "\<forall>l\<in>set ls. take 9 (chomp l) \<noteq> ''origin = ''"
  shows "snd (snd (fst (pkginfo_lines h ls acc))) = snd (snd (fst acc))
         \<and> name (fst (snd (fst (pkginfo_lines h ls acc)))) \<noteq> ID_NULL"
proof -
  from nm obtain l where l: "l \<in> set ls" "take 10 (chomp l) = ''pkgname = ''" by auto
  then obtain a b where ab: "ls = a @ l # b" by (auto simp: in_set_conv_decomp)
  have sp: "pkginfo_lines h ls acc = pkginfo_lines h b (pkginfo_line h l (pkginfo_lines h a acc))"
    using ne by (simp add: ab pkginfo_lines_append)
  have "chomp l = ''pkgname = '' @ drop 10 (chomp l)"
    using l(2) append_take_drop_id [of 10 "chomp l"] by simp
  from pkginfo_line_pkgname [OF this, of h "pkginfo_lines h a acc"]
  have "name (fst (snd (fst (pkginfo_line h l (pkginfo_lines h a acc))))) \<noteq> ID_NULL"
    by (simp add: pool_str2id_def)
  from pkginfo_lines_named [OF this, of h b] pkginfo_lines_other [OF no, of h acc]
  show ?thesis by (simp add: sp)
qed


text \<open>
  C5 fails on the code when the source-name field comes before the name field: the name is
  not known yet when \<open>origin = x\<close> is read, so the source name is stored as an identifier.
\<close>

theorem pkginfo_origin_first_counterexample:
  "repo_add_apk_pkg empty_repo ''a.apk''
     (pkginfo_file 23 [''origin = x\<newline>'', ''pkgname = x\<newline>'']) {} =
     Some (\<lparr>solvables = [\<lparr>name = pool_str2id ''x'', arch = ARCH_NOARCH, evr = ID_EMPTY,
          provides = [pool_rel2id (pool_str2id ''x'') ID_EMPTY REL_EQ], requires = [], conflicts = [],
          supplements = []\<rparr>],
       attrs = (Map.empty((0, SOLVABLE_SOURCENAME) \<mapsto> AId (pool_str2id ''x'')))
                 ((0, SOLVABLE_MEDIAFILE) \<mapsto> ALocation ''a.apk''),
       errors = []\<rparr>, Some 0)"
  by (simp add: repo_add_apk_pkg_def empty_repo_def pkginfo_file_def new_solvable_def chomp_def
      pkginfo_line_def pkginfo_field_def repodata_set_def finish_solvable_def pool_str2id_def
      repo_addid_dep_def Let_def)

text \<open>
  C5, amended: in the archive dialect, a metadata block in which a line \<open>pkgname = x\<close>
  is followed, with no other name line in between, by a line \<open>origin = y\<close> that is the
  last source-name line, has the valueless marker as its source name if \<open>y\<close> is \<open>x\<close> and
  the identifier of \<open>y\<close> otherwise; a block with a name line and no source-name line has
  the valueless marker.
\<close>

theorem pkginfo_sourcename:
  assumes "pkginfo_archive file sk th rest"
  shows "(th_lines th = pre @ ln # mid @ lo # post \<and>
          chomp ln = ''pkgname = '' @ x \<and> chomp lo = ''origin = '' @ y \<and>
          (\<forall>l\<in>set mid. \<not> is_pkgname_line l) \<and>
          (\<forall>l\<in>set post. \<not> is_origin_line l)
          \<longrightarrow> (\<exists>r'. repo_add_apk_pkg r fn file flags = Some (r', Some (length (solvables r))) \<and>
                 attrs r' (length (solvables r), SOLVABLE_SOURCENAME) =
                   Some (if y = x then AVoid else AId (pool_str2id y)))) \<and>
         ((\<exists>l\<in>set (th_lines th). is_pkgname_line l) \<and>
          (\<forall>l\<in>set (th_lines th). \<not> is_origin_line l)
          \<longrightarrow> (\<exists>r'. repo_add_apk_pkg r fn file flags = Some (r', Some (length (solvables r))) \<and>
                 attrs r' (length (solvables r), SOLVABLE_SOURCENAME) = Some AVoid))"
proof (intro conjI impI)
  let ?h = "length (solvables r)"
  let ?acc = "((r, new_solvable, False), if APK_ADD_WITH_PKGID \<in> flags then Some [] else None)"
  assume a: "th_lines th = pre @ ln # mid @ lo # post \<and>
          chomp ln = ''pkgname = '' @ x \<and> chomp lo = ''origin = '' @ y \<and>
          (\<forall>l\<in>set mid. \<not> is_pkgname_line l) \<and>
          (\<forall>l\<in>set post. \<not> is_origin_line l)"
  have ne: "\<forall>l\<in>set (pre @ ln # mid @ lo # post). l \<noteq> []"
    using assms a by (simp add: pkginfo_archive_def)
  from a have mid: "\<forall>l\<in>set mid. take 10 (chomp l) \<noteq> ''pkgname = ''"
    and post: "\<forall>l\<in>set post. take 9 (chomp l) \<noteq> ''origin = ''"
    by (simp_all add: is_pkgname_line_def is_origin_line_def)
  from a have ln: "chomp ln = ''pkgname = '' @ x" and lo: "chomp lo = ''origin = '' @ y" by simp_all
  note L = pkginfo_lines_origin_after_name [OF ne ln lo mid post, of ?h ?acc]
  from L repo_add_apk_pkg_entry [OF assms refl, of r flags fn] a
  show "\<exists>r'. repo_add_apk_pkg r fn file flags = Some (r', Some (length (solvables r))) \<and>
                 attrs r' (length (solvables r), SOLVABLE_SOURCENAME) =
                   Some (if y = x then AVoid else AId (pool_str2id y))"
    by auto
next
  let ?h = "length (solvables r)"
  let ?acc = "((r, new_solvable, False), if APK_ADD_WITH_PKGID \<in> flags then Some [] else None)"
  assume b: "(\<exists>l\<in>set (th_lines th). is_pkgname_line l) \<and>
          (\<forall>l\<in>set (th_lines th). \<not> is_origin_line l)"
  then have nm: "\<exists>l\<in>set (th_lines th). take 10 (chomp l) = ''pkgname = ''"
    and no: "\<forall>l\<in>set (th_lines th). take 9 (chomp l) \<noteq> ''origin = ''"
    by (simp_all add: is_pkgname_line_def is_origin_line_def)
  have ne: "\<forall>l\<in>set (th_lines th). l \<noteq> []"
    using assms by (simp add: pkginfo_archive_def)
  note L = pkginfo_lines_no_origin [OF nm ne no, of ?h ?acc]
  from L repo_add_apk_pkg_entry [OF assms refl, of r flags fn]
  show "\<exists>r'. repo_add_apk_pkg r fn file flags = Some (r', Some (length (solvables r))) \<and>
                 attrs r' (length (solvables r), SOLVABLE_SOURCENAME) = Some AVoid"
    by auto
qed

theorem pkginfo_sourcename_witness:
  "pkginfo_archive (pkginfo_file 23 [''pkgname = x\<newline>'', ''origin = x\<newline>''])
     [] \<lparr>th_type = 1, th_path = ''.PKGINFO'', th_length = 23,
          th_lines = [''pkgname = x\<newline>'', ''origin = x\<newline>'']\<rparr> [] \<and>
   chomp ''pkgname = x\<newline>'' = ''pkgname = '' @ ''x'' \<and>
   chomp ''origin = x\<newline>'' = ''origin = '' @ ''x'' \<and>
   (\<exists>r'. repo_add_apk_pkg empty_repo ''a.apk''
            (pkginfo_file 23 [''pkgname = x\<newline>'', ''origin = x\<newline>'']) {} = Some (r', Some 0) \<and>
          attrs r' (0, SOLVABLE_SOURCENAME) = Some AVoid)"
  using pkginfo_sourcename [of "pkginfo_file 23 [''pkgname = x\<newline>'', ''origin = x\<newline>'']" "[]"
      "\<lparr>th_type = 1, th_path = ''.PKGINFO'', th_length = 23,
          th_lines = [''pkgname = x\<newline>'', ''origin = x\<newline>'']\<rparr>" "[]"
      "[]" "''pkgname = x\<newline>''" "[]" "''origin = x\<newline>''" "[]" "''x''" "''x''" empty_repo "''a.apk''" "{}"]
  by (simp add: pkginfo_archive_def pkginfo_file_def chomp_def empty_repo_def)

theorem repo_add_apk_pkg_oversized_witness:
  "af_entries (pkginfo_file 10485761 [''pkgname = x\<newline>'']) =
     [] @ \<lparr>th_type = 1, th_path = ''.PKGINFO'', th_length = 10485761, th_lines = [''pkgname = x\<newline>'']\<rparr> # [] \<and>
   (10 * 1024 * 1024 :: nat) < 10485761 \<and>
   af_open (pkginfo_file 10485761 [''pkgname = x\<newline>'']) \<and>
   af_zopen (pkginfo_file 10485761 [''pkgname = x\<newline>'']) \<and>
   repo_add_apk_pkg empty_repo ''a.apk'' (pkginfo_file 10485761 [''pkgname = x\<newline>'']) {} =
     Some (pool_error ''a.apk: oversized .PKGINFO'' empty_repo, None)"
  using repo_add_apk_pkg_oversized [of "pkginfo_file 10485761 [''pkgname = x\<newline>'']" "[]"
      "\<lparr>th_type = 1, th_path = ''.PKGINFO'', th_length = 10485761, th_lines = [''pkgname = x\<newline>'']\<rparr>" "[]"
      empty_repo "''a.apk''" "{}"]
  by (auto simp: pkginfo_file_def)

section \<open>Properties of the index dialect and of both dialects\<close>

lemma finish_solvable_repo:
  "solvables (fst (finish_solvable h ho st)) = solvables (fst st) \<and>
   errors (fst (finish_solvable h ho st)) = errors (fst st)"
  by (simp add: finish_solvable_def Let_def repodata_set_def)

lemma finish_solvable_self:
  "name (snd st) \<noteq> ID_NULL \<Longrightarrow> self_provides (snd (finish_solvable h ho st))"
  by (simp add: finish_solvable_def Let_def self_provides_def repo_addid_dep_def ID_EMPTY_def)

lemma finish_solvable_attrs:
  "attrs (fst (finish_solvable h True st)) = attrs (fst st)"
  by (simp add: finish_solvable_def Let_def)

lemma apkindex_field_repo:
  "solvables (fst (apkindex_field h line st)) = solvables (fst st) \<and>
   errors (fst (apkindex_field h line st)) = errors (fst st)"
  by (simp add: apkindex_field_def Let_def repodata_set_def repodata_add_poolstr_array_def
      split: option.splits prod.splits)

lemma apkindex_field_name:
  "hd line \<noteq> CHR ''P'' \<Longrightarrow> name (fst (snd (apkindex_field h line st))) = name (fst (snd st))"
  by (simp add: apkindex_field_def Let_def add_deps_name split: option.splits prod.splits)

lemma apkindex_field_P:
  "hd line = CHR ''P'' \<Longrightarrow>
   apkindex_field h line st = (fst st, (fst (snd st))\<lparr>name := pool_str2id (drop 2 line)\<rparr>, snd (snd st))"
  by (simp add: apkindex_field_def Let_def)

lemma apkindex_field_other:
  "hd line \<noteq> CHR ''o'' \<Longrightarrow>
   attrs (fst (apkindex_field h line st)) (h', SOLVABLE_SOURCENAME) = attrs (fst st) (h', SOLVABLE_SOURCENAME)
   \<and> snd (snd (apkindex_field h line st)) = snd (snd st)"
  by (simp add: apkindex_field_def Let_def repodata_set_def repodata_add_poolstr_array_def
      split: option.splits prod.splits)

lemma apkindex_field_o:
  "hd line = CHR ''o'' \<Longrightarrow>
   apkindex_field h line st =
     (repodata_set h SOLVABLE_SOURCENAME
        (if name (fst (snd st)) \<noteq> ID_NULL \<and> drop 2 line = pool_id2str (name (fst (snd st))) then AVoid
         else AId (pool_str2id (drop 2 line))) (fst st),
      fst (snd st), True)"
  by (simp add: apkindex_field_def Let_def)

lemma repo_free_repodata_set:
  "repo_free_solvable h (repodata_set h k v r) = repo_free_solvable h r"
  by (simp add: repo_free_solvable_def repodata_set_def fun_eq_iff)

lemma apkindex_field_free:
  "repo_free_solvable h (fst (apkindex_field h line st)) = repo_free_solvable h (fst st)"
  by (simp add: apkindex_field_def Let_def repo_free_repodata_set repodata_add_poolstr_array_def
      split: option.splits prod.splits)

lemma chomp_newline: "chomp [CHR 0x0A] = []"
  by (simp add: chomp_def)

lemma index_line_blank: "index_line [CHR 0x0A] st = index_finish st"
  by (simp add: index_line_def chomp_newline)

lemma index_line_ignored:
  "raw \<noteq> [CHR 0x0A] \<Longrightarrow> \<not> (2 \<le> length (chomp raw) \<and> chomp raw ! 1 = CHR '':'') \<Longrightarrow>
   index_line raw st = st"
  by (auto simp: index_line_def Let_def)

lemma index_line_field:
  "raw \<noteq> [CHR 0x0A] \<Longrightarrow> 2 \<le> length (chomp raw) \<Longrightarrow> chomp raw ! 1 = CHR '':'' \<Longrightarrow>
   index_line raw st =
     (fst (apkindex_field (length (solvables (fst st))) (chomp raw)
        (fst st, case fst (snd st) of None \<Rightarrow> new_solvable | Some s \<Rightarrow> s,
         case fst (snd st) of None \<Rightarrow> False | Some s \<Rightarrow> snd (snd st))),
      Some (fst (snd (apkindex_field (length (solvables (fst st))) (chomp raw)
        (fst st, case fst (snd st) of None \<Rightarrow> new_solvable | Some s \<Rightarrow> s,
         case fst (snd st) of None \<Rightarrow> False | Some s \<Rightarrow> snd (snd st))))),
      snd (snd (apkindex_field (length (solvables (fst st))) (chomp raw)
        (fst st, case fst (snd st) of None \<Rightarrow> new_solvable | Some s \<Rightarrow> s,
         case fst (snd st) of None \<Rightarrow> False | Some s \<Rightarrow> snd (snd st)))))"
  by (simp add: index_line_def Let_def)

lemma index_lines_append:
  "\<forall>l\<in>set ls. l \<noteq> [] \<Longrightarrow> index_lines (ls @ ls') st = index_lines ls' (foldl (\<lambda>a l. index_line l a) st ls)"
  by (induction ls arbitrary: st) auto

lemma index_lines_all:
  "\<forall>l\<in>set ls. l \<noteq> [] \<Longrightarrow> index_lines ls st = index_finish (foldl (\<lambda>a l. index_line l a) st ls)"
  using index_lines_append [of ls "[]" st] by simp

lemma index_finish_errors: "errors (fst (index_finish st)) = errors (fst st)"
  by (simp add: index_finish_def Let_def repo_free_solvable_def finish_solvable_repo split: option.splits)

lemma index_line_errors: "errors (fst (index_line raw st)) = errors (fst st)"
  by (simp add: index_line_def Let_def index_finish_errors apkindex_field_repo)

lemma index_lines_errors: "errors (fst (index_lines ls st)) = errors (fst st)"
  by (induction ls arbitrary: st) (auto simp: index_finish_errors index_line_errors)

lemma apk_process_index_errors: "errors (apk_process_index r ls) = errors r"
  by (simp add: apk_process_index_def index_lines_errors)

lemma index_entries_errors: "errors (index_entries es r) = errors r"
  by (induction es arbitrary: r) (auto simp: apk_process_index_errors)

lemma news_ok_refl: "news_ok r r"
  by (simp add: news_ok_def)

lemma news_ok_trans: "news_ok r0 r1 \<Longrightarrow> news_ok r1 r2 \<Longrightarrow> news_ok r0 r2"
  by (auto simp: news_ok_def)

lemma news_ok_same: "solvables r' = solvables r \<Longrightarrow> news_ok r0 r \<Longrightarrow> news_ok r0 r'"
  by (simp add: news_ok_def)

lemma index_finish_news: "news_ok r0 (fst st) \<Longrightarrow> news_ok r0 (fst (index_finish st))"
proof (cases "fst (snd st)")
  case None
  then show "news_ok r0 (fst st) \<Longrightarrow> ?thesis" by (simp add: index_finish_def Let_def)
next
  case (Some s)
  assume ok: "news_ok r0 (fst st)"
  show ?thesis
  proof (cases "name s = ID_NULL")
    case True
    with Some ok show ?thesis
      by (simp add: index_finish_def Let_def repo_free_solvable_def news_ok_def)
  next
    case False
    from finish_solvable_self [of "(fst st, s)"] False
    have "self_provides (snd (finish_solvable (length (solvables (fst st))) (snd (snd st)) (fst st, s)))"
      by simp
    with Some ok False show ?thesis
      using finish_solvable_repo [of "length (solvables (fst st))" "snd (snd st)" "(fst st, s)"]
      by (auto simp: index_finish_def Let_def news_ok_def)
  qed
qed

lemma index_line_news: "news_ok r0 (fst st) \<Longrightarrow> news_ok r0 (fst (index_line raw st))"
  using index_finish_news [of r0 st]
  by (auto simp: index_line_def Let_def apkindex_field_repo intro: news_ok_same)

lemma index_lines_news: "news_ok r0 (fst st) \<Longrightarrow> news_ok r0 (fst (index_lines ls st))"
  by (induction ls arbitrary: st) (auto simp: index_finish_news index_line_news)

lemma apk_process_index_news: "news_ok r0 r \<Longrightarrow> news_ok r0 (apk_process_index r ls)"
  by (simp add: apk_process_index_def index_lines_news)

lemma index_entries_news: "news_ok r0 r \<Longrightarrow> news_ok r0 (index_entries es r)"
  by (induction es arbitrary: r) (auto simp: apk_process_index_news)


lemma index_line_nameless:
  assumes l: "raw \<noteq> [CHR 0x0A]" "\<not> is_index_field (CHR ''P'') raw" and inv: "nameless r st"
  shows "nameless r (index_line raw st)"
proof (cases "2 \<le> length (chomp raw) \<and> chomp raw ! 1 = CHR '':''")
  case False
  with l inv show ?thesis by (simp add: index_line_ignored)
next
  case True
  with l(2) have hd: "hd (chomp raw) \<noteq> CHR ''P''" by (simp add: is_index_field_def)
  let ?h = "length (solvables (fst st))"
  let ?s = "case fst (snd st) of None \<Rightarrow> new_solvable | Some s \<Rightarrow> s"
  let ?ho = "case fst (snd st) of None \<Rightarrow> False | Some s \<Rightarrow> snd (snd st)"
  let ?f = "apkindex_field ?h (chomp raw) (fst st, ?s, ?ho)"
  have eq: "index_line raw st = (fst ?f, Some (fst (snd ?f)), snd (snd ?f))"
    using True l(1) by (simp add: index_line_field)
  from inv have sv: "solvables (fst st) = solvables r" and er: "errors (fst st) = errors r"
    and fr: "repo_free_solvable (length (solvables r)) (fst st) = repo_free_solvable (length (solvables r)) r"
    and nm: "name ?s = ID_NULL"
    by (auto simp: nameless_def new_solvable_def)
  have "name (fst (snd ?f)) = ID_NULL"
    using apkindex_field_name [OF hd, of ?h "(fst st, ?s, ?ho)"] nm by simp
  moreover have "solvables (fst ?f) = solvables r" "errors (fst ?f) = errors r"
    using apkindex_field_repo [of ?h "chomp raw" "(fst st, ?s, ?ho)"] sv er by simp_all
  moreover have "repo_free_solvable (length (solvables r)) (fst ?f) = repo_free_solvable (length (solvables r)) r"
    using apkindex_field_free [of ?h "chomp raw" "(fst st, ?s, ?ho)"] fr sv by simp
  ultimately show ?thesis
    unfolding eq by (simp add: nameless_def)
qed

lemma index_fold_nameless:
  "\<forall>l\<in>set blk. l \<noteq> [CHR 0x0A] \<and> \<not> is_index_field (CHR ''P'') l \<Longrightarrow> nameless r st \<Longrightarrow>
   nameless r (foldl (\<lambda>a l. index_line l a) st blk)"
  by (induction blk arbitrary: st) (auto simp: index_line_nameless)

lemma index_finish_nameless:
  "nameless r st \<Longrightarrow>
   \<exists>r'. index_finish st = (r', None, snd (snd st)) \<and> solvables r' = solvables r \<and>
        errors r' = errors r \<and> (r' = r \<or> r' = repo_free_solvable (length (solvables r)) r)"
  by (cases st) (auto simp: nameless_def index_finish_def Let_def repo_free_solvable_def)

lemma index_line_open:
  assumes l: "raw \<noteq> [CHR 0x0A]" "\<not> is_index_field (CHR ''o'') raw" and inv: "index_open r v st"
  shows "index_open r v (index_line raw st)"
proof (cases "2 \<le> length (chomp raw) \<and> chomp raw ! 1 = CHR '':''")
  case False
  with l inv show ?thesis by (simp add: index_line_ignored)
next
  case True
  with l(2) have hd: "hd (chomp raw) \<noteq> CHR ''o''" by (simp add: is_index_field_def)
  from inv obtain s where s: "fst (snd st) = Some s" by (auto simp: index_open_def)
  let ?h = "length (solvables (fst st))"
  let ?f = "apkindex_field ?h (chomp raw) (fst st, s, snd (snd st))"
  have eq: "index_line raw st = (fst ?f, Some (fst (snd ?f)), snd (snd ?f))"
    using True l(1) s by (simp add: index_line_field)
  show ?thesis
    unfolding eq
    using apkindex_field_other [OF hd, of ?h "(fst st, s, snd (snd st))" "length (solvables r)"]
      apkindex_field_repo [of ?h "chomp raw" "(fst st, s, snd (snd st))"] inv
    by (simp add: index_open_def)
qed

lemma index_line_keeps_name:
  assumes l: "raw \<noteq> [CHR 0x0A]" "\<not> is_index_field (CHR ''P'') raw" and s: "fst (snd st) = Some s"
  shows "\<exists>s'. fst (snd (index_line raw st)) = Some s' \<and> name s' = name s"
proof (cases "2 \<le> length (chomp raw) \<and> chomp raw ! 1 = CHR '':''")
  case False
  with l s show ?thesis by (simp add: index_line_ignored)
next
  case True
  with l(2) have hd: "hd (chomp raw) \<noteq> CHR ''P''" by (simp add: is_index_field_def)
  show ?thesis
    using True l(1) s apkindex_field_name [OF hd, of "length (solvables (fst st))" "(fst st, s, snd (snd st))"]
    by (simp add: index_line_field)
qed

lemma index_fold_open:
  "\<forall>l\<in>set ls. l \<noteq> [CHR 0x0A] \<and> \<not> is_index_field (CHR ''o'') l \<Longrightarrow> index_open r v st \<Longrightarrow>
   index_open r v (foldl (\<lambda>a l. index_line l a) st ls)"
  by (induction ls arbitrary: st) (auto simp: index_line_open)

lemma index_fold_keeps_name:
  "\<forall>l\<in>set ls. l \<noteq> [CHR 0x0A] \<and> \<not> is_index_field (CHR ''P'') l \<Longrightarrow> fst (snd st) = Some s \<Longrightarrow>
   \<exists>s'. fst (snd (foldl (\<lambda>a l. index_line l a) st ls)) = Some s' \<and> name s' = name s"
proof (induction ls arbitrary: st s)
  case Nil
  then show ?case by simp
next
  case (Cons l ls)
  from index_line_keeps_name [of l st s] Cons.prems
  obtain s1 where s1: "fst (snd (index_line l st)) = Some s1" "name s1 = name s" by auto
  from Cons.IH [of "index_line l st" s1] Cons.prems(1) s1 show ?case by auto
qed

lemma index_line_origin_nameless:
  assumes l: "raw \<noteq> [CHR 0x0A]" "is_index_field (CHR ''o'') raw" and inv: "nameless r st"
  shows "index_open r (AId (pool_str2id (drop 2 (chomp raw)))) (index_line raw st)"
proof -
  from l(2) have f: "2 \<le> length (chomp raw)" "chomp raw ! 1 = CHR '':''" "hd (chomp raw) = CHR ''o''"
    by (simp_all add: is_index_field_def)
  let ?s = "case fst (snd st) of None \<Rightarrow> new_solvable | Some s \<Rightarrow> s"
  from inv have sv: "solvables (fst st) = solvables r" and nm: "name ?s = ID_NULL"
    by (auto simp: nameless_def new_solvable_def)
  show ?thesis
    using sv nm
    by (simp add: index_line_field [OF l(1) f(1,2)] apkindex_field_o [OF f(3)] index_open_def
        repodata_set_def)
qed

lemma index_line_name_open:
  assumes l: "raw \<noteq> [CHR 0x0A]" "is_index_field (CHR ''P'') raw" and inv: "index_open r v st"
  shows "index_open r v (index_line raw st) \<and>
         (\<exists>s. fst (snd (index_line raw st)) = Some s \<and> name s = pool_str2id (drop 2 (chomp raw)))"
proof -
  from l(2) have f: "2 \<le> length (chomp raw)" "chomp raw ! 1 = CHR '':''" "hd (chomp raw) = CHR ''P''"
    by (simp_all add: is_index_field_def)
  then have "\<not> is_index_field (CHR ''o'') raw" by (simp add: is_index_field_def)
  from index_line_open [OF l(1) this inv] inv
  show ?thesis
    by (auto simp: index_line_field [OF l(1) f(1,2)] apkindex_field_P [OF f(3)] index_open_def)
qed

lemma index_finish_open:
  assumes "index_open r v st" and "fst (snd st) = Some s" and "name s \<noteq> ID_NULL"
  shows "\<exists>r' s'. index_finish st = (r', None, True) \<and> solvables r' = solvables r @ [s'] \<and>
           name s' = name s \<and> self_provides s' \<and>
           attrs r' (length (solvables r), SOLVABLE_SOURCENAME) = Some v"
  using assms finish_solvable_self [of "(fst st, s)" "length (solvables r)" True]
    finish_solvable_repo [of "length (solvables r)" True "(fst st, s)"]
  by (cases st) (auto simp: index_open_def index_finish_def Let_def finish_solvable_attrs
      finish_solvable_name)

lemma index_block_origin_first:
  assumes blk: "\<forall>l\<in>set (pre @ lo # mid @ ln # post). l \<noteq> [] \<and> l \<noteq> [CHR 0x0A]"
    and pre: "\<forall>l\<in>set pre. \<not> is_index_field (CHR ''P'') l"
    and lo: "is_index_field (CHR ''o'') lo"
    and mid: "\<forall>l\<in>set mid. \<not> is_index_field (CHR ''o'') l"
    and ln: "is_index_field (CHR ''P'') ln"
    and post: "\<forall>l\<in>set post. \<not> is_index_field (CHR ''o'') l \<and> \<not> is_index_field (CHR ''P'') l"
  shows "\<exists>r' s'. index_finish (foldl (\<lambda>a l. index_line l a) (r, None, ho) (pre @ lo # mid @ ln # post))
             = (r', None, True) \<and>
           solvables r' = solvables r @ [s'] \<and> name s' = pool_str2id (drop 2 (chomp ln)) \<and>
           attrs r' (length (solvables r), SOLVABLE_SOURCENAME) = Some (AId (pool_str2id (drop 2 (chomp lo))))"
proof -
  let ?F = "\<lambda>st ls. foldl (\<lambda>a l. index_line l a) st ls"
  let ?v = "AId (pool_str2id (drop 2 (chomp lo)))"
  define s1 where "s1 = ?F (r, None, ho) pre"
  define s2 where "s2 = index_line lo s1"
  define s3 where "s3 = ?F s2 mid"
  define s4 where "s4 = index_line ln s3"
  define s5 where "s5 = ?F s4 post"
  have sp: "?F (r, None, ho) (pre @ lo # mid @ ln # post) = s5"
    by (simp add: s1_def s2_def s3_def s4_def s5_def)
  have "nameless r (r, None, ho)" by (simp add: nameless_def)
  with pre blk have n1: "nameless r s1"
    unfolding s1_def by (intro index_fold_nameless) auto
  have o2: "index_open r ?v s2"
    unfolding s2_def using blk by (intro index_line_origin_nameless lo n1) simp
  have o3: "index_open r ?v s3"
    unfolding s3_def using blk mid by (intro index_fold_open o2) auto
  have o4: "index_open r ?v s4"
    and "\<exists>s. fst (snd s4) = Some s \<and> name s = pool_str2id (drop 2 (chomp ln))"
    using index_line_name_open [OF _ ln o3] blk by (simp_all add: s4_def)
  then obtain s where s: "fst (snd s4) = Some s" "name s = pool_str2id (drop 2 (chomp ln))"
    by auto
  have o5: "index_open r ?v s5"
    unfolding s5_def using blk post by (intro index_fold_open o4) auto
  have "\<exists>s'. fst (snd s5) = Some s' \<and> name s' = name s"
    unfolding s5_def using blk post by (intro index_fold_keeps_name s(1)) auto
  then obtain s' where s': "fst (snd s5) = Some s'" "name s' = pool_str2id (drop 2 (chomp ln))"
    using s(2) by auto
  from index_finish_open [OF o5 s'(1)] s'(2)
  show ?thesis unfolding sp by (auto simp: pool_str2id_def)
qed


lemma pkg_entries_solvables:
  "solvables (pk_repo (pkg_entries flags fn es st)) = solvables (pk_repo st)"
proof (induction es arbitrary: st)
  case Nil
  then show ?case by simp
next
  case (Cons th es)
  show ?case
    using Cons.IH pkginfo_lines_repo [of "length (solvables (pk_repo st))" "th_lines th"
      "((pk_repo st, new_solvable, pk_haveorigin st),
        if APK_ADD_WITH_PKGID \<in> flags then Some [] else pk_pkgidchk st)"]
    by (simp add: Let_def pool_error_def)
qed

lemma repo_add_apk_pkg_self:
  assumes "repo_add_apk_pkg r fn file flags = Some (r', Some h)"
  shows "\<exists>s. solvables r' = solvables r @ [s] \<and> h = length (solvables r) \<and> self_provides s"
proof -
  let ?st = "pkg_entries flags fn (af_entries file)
               \<lparr>pk_repo = r, pk_s = None, pk_pkgidchk = None, pk_haveorigin = False\<rparr>"
  have sv: "solvables (pk_repo ?st) = solvables r"
    by (simp add: pkg_entries_solvables)
  from assms obtain s where s: "pk_s ?st = Some s" "name s \<noteq> ID_NULL"
    by (auto simp: repo_add_apk_pkg_def Let_def split: if_splits option.splits)
  let ?fin = "finish_solvable (length (solvables r)) (pk_haveorigin ?st) (pk_repo ?st, s)"
  have "self_provides (snd ?fin)"
    using finish_solvable_self [of "(pk_repo ?st, s)"] s(2) by simp
  moreover have "solvables (fst ?fin) = solvables r"
    using finish_solvable_repo [of "length (solvables r)" "pk_haveorigin ?st" "(pk_repo ?st, s)"] sv
    by simp
  ultimately show ?thesis
    using assms s sv
    by (auto simp: repo_add_apk_pkg_def Let_def repodata_set_def split: if_splits option.splits)
qed

text \<open>
  C2: the record of a successful \<open>repo_add_apk_pkg\<close> and every record that
  \<open>repo_add_apk_repo\<close> adds has a name, a version (the empty one if none was given) and the
  relation \<open>name = version\<close> in its provides list, whatever fields the source text had.
\<close>

theorem finalized_self_provides:
  "(repo_add_apk_pkg r fn file flags = Some (r', Some h) \<longrightarrow>
      (\<exists>s. solvables r' = solvables r @ [s] \<and> h = length (solvables r) \<and> self_provides s)) \<and>
   (\<exists>new. solvables (fst (repo_add_apk_repo r fp flags')) = solvables r @ new \<and>
          (\<forall>s\<in>set new. self_provides s))"
proof -
  have "news_ok r (fst (repo_add_apk_repo r fp flags'))"
    by (simp add: repo_add_apk_repo_def apk_process_index_news index_entries_news news_ok_refl)
  then show ?thesis
    using repo_add_apk_pkg_self [of r fn "file" flags r' h] by (auto simp: news_ok_def)
qed

lemmas idx_ev = repo_add_apk_repo_def apk_process_index_def index_line_def index_finish_def
  apkindex_field_def chomp_def new_solvable_def finish_solvable_def repodata_set_def
  repo_free_solvable_def empty_repo_def pool_str2id_def pool_rel2id_def repo_addid_dep_def Let_def

theorem finalized_self_provides_witness:
  "repo_add_apk_pkg empty_repo ''a.apk'' (pkginfo_file 12 [''pkgname = x\<newline>'']) {REPO_NO_LOCATION} =
     Some (\<lparr>solvables = [\<lparr>name = StrId ''x'', arch = ARCH_NOARCH, evr = ID_EMPTY,
          provides = [RelId (StrId ''x'') ID_EMPTY REL_EQ], requires = [], conflicts = [],
          supplements = []\<rparr>],
       attrs = Map.empty((0, SOLVABLE_SOURCENAME) \<mapsto> AVoid), errors = []\<rparr>, Some 0) \<and>
   self_provides \<lparr>name = StrId ''x'', arch = ARCH_NOARCH, evr = ID_EMPTY,
          provides = [RelId (StrId ''x'') ID_EMPTY REL_EQ], requires = [], conflicts = [],
          supplements = []\<rparr> \<and>
   solvables (fst (repo_add_apk_repo empty_repo
       \<lparr>fp_lines = [''P:a\<newline>'', ''V:1\<newline>''], fp_entries = []\<rparr> {APK_ADD_INDEX})) =
     [\<lparr>name = StrId ''a'', arch = ARCH_NOARCH, evr = StrId ''1'',
       provides = [RelId (StrId ''a'') (StrId ''1'') REL_EQ], requires = [], conflicts = [],
       supplements = []\<rparr>]"
proof -
  let ?s = "\<lparr>name = StrId ''x'', arch = ARCH_NOARCH, evr = ID_EMPTY,
          provides = [RelId (StrId ''x'') ID_EMPTY REL_EQ], requires = [], conflicts = [],
          supplements = []\<rparr>"
  let ?r = "\<lparr>solvables = [?s], attrs = Map.empty((0, SOLVABLE_SOURCENAME) \<mapsto> AVoid), errors = []\<rparr>"
  have a: "repo_add_apk_pkg empty_repo ''a.apk'' (pkginfo_file 12 [''pkgname = x\<newline>'']) {REPO_NO_LOCATION}
             = Some (?r, Some 0)"
    by (simp add: repo_add_apk_pkg_def empty_repo_def pkginfo_file_def new_solvable_def chomp_def
      pkginfo_line_def pkginfo_field_def repodata_set_def finish_solvable_def pool_str2id_def
      pool_rel2id_def repo_addid_dep_def Let_def)
  have b: "solvables (fst (repo_add_apk_repo empty_repo
       \<lparr>fp_lines = [''P:a\<newline>'', ''V:1\<newline>''], fp_entries = []\<rparr> {APK_ADD_INDEX})) =
     [\<lparr>name = StrId ''a'', arch = ARCH_NOARCH, evr = StrId ''1'',
       provides = [RelId (StrId ''a'') (StrId ''1'') REL_EQ], requires = [], conflicts = [],
       supplements = []\<rparr>]"
    by (simp add: idx_ev)
  from finalized_self_provides [of empty_repo "''a.apk''" "pkginfo_file 12 [''pkgname = x\<newline>'']"
      "{REPO_NO_LOCATION}" ?r 0 "\<lparr>fp_lines = [''P:a\<newline>'', ''V:1\<newline>''], fp_entries = []\<rparr>" "{APK_ADD_INDEX}"] a b
  show ?thesis by (simp add: empty_repo_def)
qed

text \<open>
  C8: a block of the index whose lines set no name (none is a \<open>P:\<close> field), closed by a blank
  line or by the end of the input, leaves the records and the reported errors as they
  were: the open record, if there is one, is freed, and the loop goes on with the lines
  after the blank line. \<open>repo_add_apk_repo\<close> returns 0 and reports no error, whatever it
  reads.
\<close>

theorem index_nameless_block:
  assumes "\<forall>l\<in>set blk. l \<noteq> [] \<and> l \<noteq> [CHR 0x0A] \<and> \<not> is_index_field (CHR ''P'') l"
  shows "(\<exists>r' ho'. solvables r' = solvables r \<and> errors r' = errors r \<and>
            (r' = r \<or> r' = repo_free_solvable (length (solvables r)) r) \<and>
            index_lines (blk @ [CHR 0x0A] # rest) (r, None, ho) = index_lines rest (r', None, ho') \<and>
            index_lines blk (r, None, ho) = (r', None, ho')) \<and>
         snd (repo_add_apk_repo r fp flags) = 0 \<and>
         errors (fst (repo_add_apk_repo r fp flags)) = errors r"
proof -
  let ?st = "foldl (\<lambda>a l. index_line l a) (r, None, ho) blk"
  have "nameless r (r, None, ho)" by (simp add: nameless_def)
  with assms have "nameless r ?st" by (intro index_fold_nameless) auto
  from index_finish_nameless [OF this]
  obtain r' where r': "index_finish ?st = (r', None, snd (snd ?st))" "solvables r' = solvables r"
    "errors r' = errors r" "r' = r \<or> r' = repo_free_solvable (length (solvables r)) r"
    by auto
  have ne: "\<forall>l\<in>set blk. l \<noteq> []" using assms by simp
  have 1: "index_lines blk (r, None, ho) = (r', None, snd (snd ?st))"
    using index_lines_all [OF ne] r'(1) by simp
  have 2: "index_lines (blk @ [CHR 0x0A] # rest) (r, None, ho) = index_lines rest (r', None, snd (snd ?st))"
    using index_lines_append [OF ne, of "[CHR 0x0A] # rest" "(r, None, ho)"] r'(1)
    by (simp add: index_line_blank)
  have 3: "snd (repo_add_apk_repo r fp flags) = 0 \<and> errors (fst (repo_add_apk_repo r fp flags)) = errors r"
    by (simp add: repo_add_apk_repo_def apk_process_index_errors index_entries_errors)
  from 1 2 3 r'(2-4) show ?thesis by blast
qed

theorem index_nameless_block_witness:
  "\<not> is_index_field (CHR ''P'') ''V:1\<newline>'' \<and>
   index_lines ([''V:1\<newline>''] @ [CHR 0x0A] # [''P:a\<newline>'']) (empty_repo, None, False) =
     index_lines [''P:a\<newline>''] (empty_repo, None, False) \<and>
   repo_add_apk_repo empty_repo \<lparr>fp_lines = [''V:1\<newline>'', [CHR 0x0A], ''P:a\<newline>''], fp_entries = []\<rparr>
       {APK_ADD_INDEX} =
     (\<lparr>solvables = [\<lparr>name = StrId ''a'', arch = ARCH_NOARCH, evr = ID_EMPTY,
          provides = [RelId (StrId ''a'') ID_EMPTY REL_EQ], requires = [], conflicts = [],
          supplements = []\<rparr>],
       attrs = Map.empty((0, SOLVABLE_SOURCENAME) \<mapsto> AVoid), errors = []\<rparr>, 0)"
  using index_nameless_block [of "[''V:1\<newline>'']" empty_repo "[''P:a\<newline>'']" False
      "\<lparr>fp_lines = [''V:1\<newline>'', [CHR 0x0A], ''P:a\<newline>''], fp_entries = []\<rparr>" "{APK_ADD_INDEX}"]
  by (simp add: is_index_field_def idx_ev fun_eq_iff)


text \<open>
  C9: in both dialects, when the source-name line comes before the first name line of a
  record and is the last source-name line of the record, the source name is stored as the
  identifier of its text \<open>y\<close>, whatever the name \<open>x\<close> of the record turns out to be, also when
  \<open>x\<close> and \<open>y\<close> are the same text.
\<close>

theorem sourcename_origin_before_name:
  "(pkginfo_archive file sk th rest \<and> th_lines th = pre @ lo # mid @ ln # post \<and>
    chomp lo = ''origin = '' @ y \<and> chomp ln = ''pkgname = '' @ x \<and>
    (\<forall>l\<in>set pre. \<not> is_pkgname_line l) \<and> (\<forall>l\<in>set mid. \<not> is_origin_line l) \<and>
    (\<forall>l\<in>set post. \<not> is_origin_line l \<and> \<not> is_pkgname_line l)
    \<longrightarrow> (\<exists>r' s'. repo_add_apk_pkg r fn file flags = Some (r', Some (length (solvables r))) \<and>
           solvables r' = solvables r @ [s'] \<and> name s' = pool_str2id x \<and>
           attrs r' (length (solvables r), SOLVABLE_SOURCENAME) = Some (AId (pool_str2id y)))) \<and>
   ((\<forall>l\<in>set (ipre @ ilo # imid @ iln # ipost). l \<noteq> [] \<and> l \<noteq> [CHR 0x0A]) \<and>
    (\<forall>l\<in>set ipre. \<not> is_index_field (CHR ''P'') l) \<and> is_index_field (CHR ''o'') ilo \<and>
    (\<forall>l\<in>set imid. \<not> is_index_field (CHR ''o'') l) \<and> is_index_field (CHR ''P'') iln \<and>
    (\<forall>l\<in>set ipost. \<not> is_index_field (CHR ''o'') l \<and> \<not> is_index_field (CHR ''P'') l)
    \<longrightarrow> (\<exists>r' s'. index_lines ((ipre @ ilo # imid @ iln # ipost) @ [CHR 0x0A] # irest) (r, None, ho)
             = index_lines irest (r', None, True) \<and>
           index_lines (ipre @ ilo # imid @ iln # ipost) (r, None, ho) = (r', None, True) \<and>
           solvables r' = solvables r @ [s'] \<and> name s' = pool_str2id (drop 2 (chomp iln)) \<and>
           attrs r' (length (solvables r), SOLVABLE_SOURCENAME)
             = Some (AId (pool_str2id (drop 2 (chomp ilo))))))"
proof (intro conjI impI)
  let ?h = "length (solvables r)"
  let ?acc = "((r, new_solvable, False), if APK_ADD_WITH_PKGID \<in> flags then Some [] else None)"
  assume a: "pkginfo_archive file sk th rest \<and> th_lines th = pre @ lo # mid @ ln # post \<and>
    chomp lo = ''origin = '' @ y \<and> chomp ln = ''pkgname = '' @ x \<and>
    (\<forall>l\<in>set pre. \<not> is_pkgname_line l) \<and> (\<forall>l\<in>set mid. \<not> is_origin_line l) \<and>
    (\<forall>l\<in>set post. \<not> is_origin_line l \<and> \<not> is_pkgname_line l)"
  then have arch: "pkginfo_archive file sk th rest" and ls: "th_lines th = pre @ lo # mid @ ln # post"
    and lo: "chomp lo = ''origin = '' @ y" and ln: "chomp ln = ''pkgname = '' @ x"
    and pre: "\<forall>l\<in>set pre. take 10 (chomp l) \<noteq> ''pkgname = ''"
    and mid: "\<forall>l\<in>set mid. take 9 (chomp l) \<noteq> ''origin = ''"
    and post: "\<forall>l\<in>set post. take 9 (chomp l) \<noteq> ''origin = '' \<and> take 10 (chomp l) \<noteq> ''pkgname = ''"
    by (simp_all add: is_pkgname_line_def is_origin_line_def)
  have ne: "\<forall>l\<in>set (pre @ lo # mid @ ln # post). l \<noteq> []"
    using arch ls by (simp add: pkginfo_archive_def)
  have n0: "name (fst (snd (fst ?acc))) = ID_NULL" by (simp add: new_solvable_def)
  note L = pkginfo_lines_origin_before_name [OF ne ln lo pre mid post n0, of ?h]
  from L repo_add_apk_pkg_entry [OF arch refl, of r flags fn] ls
  show "\<exists>r' s'. repo_add_apk_pkg r fn file flags = Some (r', Some (length (solvables r))) \<and>
           solvables r' = solvables r @ [s'] \<and> name s' = pool_str2id x \<and>
           attrs r' (length (solvables r), SOLVABLE_SOURCENAME) = Some (AId (pool_str2id y))"
    by (auto simp: finish_solvable_name pool_str2id_def)
next
  let ?blk = "ipre @ ilo # imid @ iln # ipost"
  assume b: "(\<forall>l\<in>set ?blk. l \<noteq> [] \<and> l \<noteq> [CHR 0x0A]) \<and>
    (\<forall>l\<in>set ipre. \<not> is_index_field (CHR ''P'') l) \<and> is_index_field (CHR ''o'') ilo \<and>
    (\<forall>l\<in>set imid. \<not> is_index_field (CHR ''o'') l) \<and> is_index_field (CHR ''P'') iln \<and>
    (\<forall>l\<in>set ipost. \<not> is_index_field (CHR ''o'') l \<and> \<not> is_index_field (CHR ''P'') l)"
  then have blk: "\<forall>l\<in>set ?blk. l \<noteq> [] \<and> l \<noteq> [CHR 0x0A]"
    and pre: "\<forall>l\<in>set ipre. \<not> is_index_field (CHR ''P'') l" and lo: "is_index_field (CHR ''o'') ilo"
    and mid: "\<forall>l\<in>set imid. \<not> is_index_field (CHR ''o'') l" and ln: "is_index_field (CHR ''P'') iln"
    and post: "\<forall>l\<in>set ipost. \<not> is_index_field (CHR ''o'') l \<and> \<not> is_index_field (CHR ''P'') l"
    by blast+
  from index_block_origin_first [OF blk pre lo mid ln post, of r ho]
  obtain r' s' where r': "index_finish (foldl (\<lambda>a l. index_line l a) (r, None, ho) ?blk) = (r', None, True)"
    "solvables r' = solvables r @ [s']" "name s' = pool_str2id (drop 2 (chomp iln))"
    "attrs r' (length (solvables r), SOLVABLE_SOURCENAME) = Some (AId (pool_str2id (drop 2 (chomp ilo))))"
    by blast
  have ne: "\<forall>l\<in>set ?blk. l \<noteq> []" using blk by blast
  have 1: "index_lines ?blk (r, None, ho) = (r', None, True)"
    using index_lines_all [OF ne] r'(1) by simp
  have 2: "index_lines (?blk @ [CHR 0x0A] # irest) (r, None, ho) = index_lines irest (r', None, True)"
    using index_lines_append [OF ne, of "[CHR 0x0A] # irest" "(r, None, ho)"] r'(1)
    by (simp add: index_line_blank)
  from 1 2 r'(2-4)
  show "\<exists>r' s'. index_lines (?blk @ [CHR 0x0A] # irest) (r, None, ho)
             = index_lines irest (r', None, True) \<and>
           index_lines ?blk (r, None, ho) = (r', None, True) \<and>
           solvables r' = solvables r @ [s'] \<and> name s' = pool_str2id (drop 2 (chomp iln)) \<and>
           attrs r' (length (solvables r), SOLVABLE_SOURCENAME)
             = Some (AId (pool_str2id (drop 2 (chomp ilo))))"
    by blast
qed

theorem sourcename_origin_before_name_witness:
  "pkginfo_archive (pkginfo_file 23 [''origin = x\<newline>'', ''pkgname = x\<newline>''])
     [] \<lparr>th_type = 1, th_path = ''.PKGINFO'', th_length = 23,
          th_lines = [''origin = x\<newline>'', ''pkgname = x\<newline>'']\<rparr> [] \<and>
   chomp ''origin = x\<newline>'' = ''origin = '' @ ''x'' \<and>
   chomp ''pkgname = x\<newline>'' = ''pkgname = '' @ ''x'' \<and>
   (\<exists>r' s'. repo_add_apk_pkg empty_repo ''a.apk''
        (pkginfo_file 23 [''origin = x\<newline>'', ''pkgname = x\<newline>'']) {} = Some (r', Some 0) \<and>
      solvables r' = [s'] \<and> name s' = StrId ''x'' \<and>
      attrs r' (0, SOLVABLE_SOURCENAME) = Some (AId (StrId ''x''))) \<and>
   is_index_field (CHR ''o'') ''o:x\<newline>'' \<and> is_index_field (CHR ''P'') ''P:x\<newline>'' \<and>
   (\<exists>r' s'. index_lines [''o:x\<newline>'', ''P:x\<newline>''] (empty_repo, None, False) = (r', None, True) \<and>
      solvables r' = [s'] \<and> name s' = StrId ''x'' \<and>
      attrs r' (0, SOLVABLE_SOURCENAME) = Some (AId (StrId ''x'')))"
  using sourcename_origin_before_name [of "pkginfo_file 23 [''origin = x\<newline>'', ''pkgname = x\<newline>'']" "[]"
      "\<lparr>th_type = 1, th_path = ''.PKGINFO'', th_length = 23,
          th_lines = [''origin = x\<newline>'', ''pkgname = x\<newline>'']\<rparr>" "[]"
      "[]" "''origin = x\<newline>''" "[]" "''pkgname = x\<newline>''" "[]" "''x''" "''x''" empty_repo "''a.apk''" "{}"
      "[]" "''o:x\<newline>''" "[]" "''P:x\<newline>''" "[]" "[]" False]
  by (simp add: pkginfo_archive_def pkginfo_file_def chomp_def empty_repo_def is_index_field_def
      pool_str2id_def) blast

end
